theory Spec2Isabelle
  imports Main "HOL-Library.Word"
begin

unbundle bit_operations_syntax

chapter \<open>HdrHistogram log codec: a model of \<^verbatim>\<open>hdr_histogram_log.c\<close>\<close>

section \<open>Machine types and error codes\<close>

type_synonym u8 = "8 word"
type_synonym u32 = "32 word"
type_synonym u64 = "64 word"

text \<open>
  The conditions the functions of the file return. \<^verbatim>\<open>EINVAL\<close> and \<^verbatim>\<open>ENOMEM\<close> come from
  \<^verbatim>\<open>errno.h\<close> (22 and 12 on Linux and macOS), the others are the macros of the file.
  A C function that returns such a code and fills an output parameter is modelled with a
  sum: \<open>Inl\<close> of the condition, or \<open>Inr\<close> of the output when the C function returns 0.
  Where a run of a function can have no defined result (a loop that never ends, an
  \<^verbatim>\<open>int\<close> that overflows, \<^verbatim>\<open>free\<close> of an indeterminate pointer), the model returns an
  option and \<open>None\<close> is such a run.
\<close>

datatype hdr_error =
    EINVAL
  | ENOMEM
  | HDR_COMPRESSION_COOKIE_MISMATCH
  | HDR_ENCODING_COOKIE_MISMATCH
  | HDR_DEFLATE_INIT_FAIL
  | HDR_DEFLATE_FAIL
  | HDR_INFLATE_INIT_FAIL
  | HDR_INFLATE_FAIL
  | HDR_DEFLATE_NEED_REALLOC

fun errno :: "hdr_error \<Rightarrow> int" where
  "errno EINVAL = 22"
| "errno ENOMEM = 12"
| "errno HDR_COMPRESSION_COOKIE_MISMATCH = -29999"
| "errno HDR_ENCODING_COOKIE_MISMATCH = -29998"
| "errno HDR_DEFLATE_INIT_FAIL = -29997"
| "errno HDR_DEFLATE_FAIL = -29996"
| "errno HDR_INFLATE_INIT_FAIL = -29995"
| "errno HDR_INFLATE_FAIL = -29994"
| "errno HDR_DEFLATE_NEED_REALLOC = -29993"

text \<open>
  A \<^verbatim>\<open>char\<close> converted to \<^verbatim>\<open>int\<close>. On the Linux and macOS x86-64 targets of the file
  \<^verbatim>\<open>char\<close> is signed: bytes from 128 on are negative.
\<close>

definition char_int :: "char \<Rightarrow> int" where
  "char_int c = (if of_char c < (128 :: int) then of_char c else of_char c - 256)"

section \<open>Base64\<close>

text \<open>
  The alphabet table of \<^verbatim>\<open>hdr_histogram_log.c\<close>: 64 symbols and a closing NUL.
\<close>

definition base64_table :: "char list" where
  "base64_table = ''ABCDEFGHIJKLMNOPQRSTUVWXYZabcdefghijklmnopqrstuvwxyz0123456789+/'' @ [CHR 0x00]"

definition get_base_64 :: "u32 \<Rightarrow> nat \<Rightarrow> char" where
  "get_base_64 v shift = base64_table ! unat (0x3F AND drop_bit shift v)"

text \<open>
  \<^verbatim>\<open>from_base_64\<close> takes and returns a C \<^verbatim>\<open>int\<close>. A symbol outside the alphabet falls
  through every branch and the function returns the number \<^verbatim>\<open>EINVAL\<close> as if it were a
  six-bit value.
\<close>

definition from_base_64 :: "int \<Rightarrow> int" where
  "from_base_64 c =
     (if of_char CHR ''A'' \<le> c \<and> c \<le> of_char CHR ''Z'' then c - of_char CHR ''A''
      else if of_char CHR ''a'' \<le> c \<and> c \<le> of_char CHR ''z'' then (c - of_char CHR ''a'') + 26
      else if of_char CHR ''0'' \<le> c \<and> c \<le> of_char CHR ''9'' then (c - of_char CHR ''0'') + 52
      else if of_char CHR ''+'' = c then 62
      else if of_char CHR ''/'' = c then 63
      else if of_char CHR ''='' = c then 0
      else errno EINVAL)"

text \<open>
  \<^verbatim>\<open>base64_encoded_len\<close> is \<^verbatim>\<open>(size_t) (ceil(decoded_size / 3.0) * 4.0)\<close>; the double
  arithmetic is exact for every size below \<open>2 ^ 53\<close>, where it is the rounded-up division
  written here.
\<close>

definition base64_encoded_len :: "nat \<Rightarrow> nat" where
  "base64_encoded_len decoded_size = ((decoded_size + 2) div 3) * 4"

definition base64_decoded_len :: "nat \<Rightarrow> nat" where
  "base64_decoded_len encoded_size = (encoded_size div 4) * 3"

text \<open>
  The block functions read \<^verbatim>\<open>input[0]\<close>, \<^verbatim>\<open>input[1]\<close>, ... of the pointer they are given
  and write four characters (three bytes when decoding). A pointer \<^verbatim>\<open>&input[i]\<close> is the
  list \<open>drop i input\<close>; the characters written are the list returned. With a pad other
  than 1 or 2 the \<^verbatim>\<open>switch\<close> of \<^verbatim>\<open>base64_encode_block_pad\<close> writes nothing.
\<close>

definition base64_encode_block_pad :: "u8 list \<Rightarrow> nat \<Rightarrow> char list" where
  "base64_encode_block_pad input pad =
     (if pad = 2 then
        (let v = push_bit 16 (ucast (input ! 0)) + push_bit 8 (ucast (input ! 1)) :: u32
         in [get_base_64 v 18, get_base_64 v 12, get_base_64 v 6, CHR ''=''])
      else if pad = 1 then
        (let v = push_bit 16 (ucast (input ! 0)) :: u32
         in [get_base_64 v 18, get_base_64 v 12, CHR ''='', CHR ''=''])
      else [])"

definition base64_encode_block :: "u8 list \<Rightarrow> char list" where
  "base64_encode_block input =
     (let v = push_bit 16 (ucast (input ! 0)) + push_bit 8 (ucast (input ! 1))
                + ucast (input ! 2) :: u32
      in [get_base_64 v 18, get_base_64 v 12, get_base_64 v 6, get_base_64 v 0])"

text \<open>
  The \<^verbatim>\<open>for\<close> loop of \<^verbatim>\<open>base64_encode\<close>, with its two indices. The loop writes block
  after block at \<open>j = 0, 4, 8, \<dots>\<close>, so the output buffer is the concatenation of the
  blocks written so far. The indices \<open>i\<close> and \<open>j\<close> are of type \<^verbatim>\<open>int\<close>: they start at 0
  and only grow, so they are natural numbers here, and \<^verbatim>\<open>i += 3\<close> or \<^verbatim>\<open>j += 4\<close> past
  \<^verbatim>\<open>INT_MAX\<close> is a signed overflow, which C leaves undefined: the loop then has no result.
  \<open>i\<close> never passes \<^verbatim>\<open>input_len\<close>, so \<^verbatim>\<open>input_len - i\<close> does not wrap.
\<close>

definition INT_MAX :: nat where
  "INT_MAX = 2147483647"

function base64_encode_loop ::
  "u8 list \<Rightarrow> nat \<Rightarrow> nat \<Rightarrow> nat \<Rightarrow> char list \<Rightarrow> (nat \<times> nat \<times> char list) option" where
  "base64_encode_loop input output_len i j output =
     (if 3 \<le> length input - i \<and> j < output_len
      then (if INT_MAX < i + 3 \<or> INT_MAX < j + 4 then None
            else base64_encode_loop input output_len (i + 3) (j + 4)
                   (output @ base64_encode_block (drop i input)))
      else Some (i, j, output))"
  by pat_completeness auto
termination
  by (relation "measure (\<lambda>(input, output_len, i, j, output). length input - i)") auto

declare base64_encode_loop.simps [simp del]

definition base64_encode :: "u8 list \<Rightarrow> nat \<Rightarrow> (hdr_error + char list) option" where
  "base64_encode input output_len =
     (if base64_encoded_len (length input) \<noteq> output_len then Some (Inl EINVAL)
      else (case base64_encode_loop input output_len 0 0 [] of
              None \<Rightarrow> None
            | Some (i, j, output) \<Rightarrow>
                Some (Inr (output @ base64_encode_block_pad (drop i input) (length input - i)))))"

text \<open>
  \<^verbatim>\<open>base64_decode_block\<close> shifts each result of \<^verbatim>\<open>from_base_64\<close> as an \<^verbatim>\<open>int\<close> and ors
  it into a \<^verbatim>\<open>uint32_t\<close>; no result is compared with \<^verbatim>\<open>EINVAL\<close>.
\<close>

definition base64_decode_block :: "char list \<Rightarrow> u8 list" where
  "base64_decode_block input =
     (let v = (0 :: u32);
          v = v OR push_bit 18 (word_of_int (from_base_64 (char_int (input ! 0))));
          v = v OR push_bit 12 (word_of_int (from_base_64 (char_int (input ! 1))));
          v = v OR push_bit 6 (word_of_int (from_base_64 (char_int (input ! 2))));
          v = v OR word_of_int (from_base_64 (char_int (input ! 3)))
      in [ucast (drop_bit 16 v AND 0xFF), ucast (drop_bit 8 v AND 0xFF), ucast (v AND 0xFF)])"

text \<open>
  The \<^verbatim>\<open>for\<close> loop of \<^verbatim>\<open>base64_decode\<close>: \<open>i\<close> and \<open>j\<close> are again of type \<^verbatim>\<open>int\<close>, and
  the bytes written at \<open>j = 0, 3, 6, \<dots>\<close> are the concatenation of the blocks.
\<close>

function base64_decode_loop :: "char list \<Rightarrow> nat \<Rightarrow> nat \<Rightarrow> u8 list \<Rightarrow> u8 list option" where
  "base64_decode_loop input i j output =
     (if i < length input
      then (if INT_MAX < i + 4 \<or> INT_MAX < j + 3 then None
            else base64_decode_loop input (i + 4) (j + 3)
                   (output @ base64_decode_block (drop i input)))
      else Some output)"
  by pat_completeness auto
termination
  by (relation "measure (\<lambda>(input, i, j, output). length input - i)") auto

declare base64_decode_loop.simps [simp del]

definition base64_decode :: "char list \<Rightarrow> nat \<Rightarrow> (hdr_error + u8 list) option" where
  "base64_decode input output_len =
     (if length input < 4 \<or> (length input AND 3) \<noteq> 0
         \<or> (length input div 4) * 3 \<noteq> output_len
      then Some (Inl EINVAL)
      else (case base64_decode_loop input 0 0 [] of
              None \<Rightarrow> None
            | Some output \<Rightarrow> Some (Inr output)))"

text \<open>
  Encoding a buffer into a text buffer of the size \<^verbatim>\<open>base64_encoded_len\<close> gives, and
  decoding the text into a buffer of the size \<^verbatim>\<open>base64_decoded_len\<close> gives for it, as
  \<^verbatim>\<open>parse_lines\<close> sizes its decode buffer.
\<close>

definition base64_roundtrip :: "u8 list \<Rightarrow> (hdr_error + u8 list) option" where
  "base64_roundtrip bs =
     (case base64_encode bs (base64_encoded_len (length bs)) of
        None \<Rightarrow> None
      | Some (Inl e) \<Rightarrow> Some (Inl e)
      | Some (Inr txt) \<Rightarrow> base64_decode txt (base64_decoded_len (length txt)))"

section \<open>Results, byte order and memory\<close>

text \<open>
  \<^verbatim>\<open>hdr_decode_compressed\<close> and \<^verbatim>\<open>hdr_encode_compressed\<close> return an \<^verbatim>\<open>int\<close> and write
  their output through a pointer; the model returns the pair of both. \<open>Success\<close> is the
  return of 0.
\<close>

datatype result = Success | Failure hdr_error

text \<open>
  The byte order of the host is a parameter. A 32-bit or 64-bit field lies in memory as the
  host stores it (\<open>store32\<close>, \<open>load32\<close>); \<^verbatim>\<open>htobe32\<close> and \<^verbatim>\<open>be32toh\<close> of
  \<^verbatim>\<open>endian.h\<close> swap the bytes of a value on a little-endian host and do nothing on a
  big-endian one.
\<close>

datatype endian = LittleEndian | BigEndian

definition le_bytes32 :: "u32 \<Rightarrow> u8 list" where
  "le_bytes32 w = [ucast w, ucast (drop_bit 8 w), ucast (drop_bit 16 w), ucast (drop_bit 24 w)]"

definition le_word32 :: "u8 list \<Rightarrow> u32" where
  "le_word32 bs = ucast (bs ! 0) OR push_bit 8 (ucast (bs ! 1)) OR push_bit 16 (ucast (bs ! 2))
                    OR push_bit 24 (ucast (bs ! 3))"

definition le_bytes64 :: "u64 \<Rightarrow> u8 list" where
  "le_bytes64 w = [ucast w, ucast (drop_bit 8 w), ucast (drop_bit 16 w), ucast (drop_bit 24 w),
                   ucast (drop_bit 32 w), ucast (drop_bit 40 w), ucast (drop_bit 48 w),
                   ucast (drop_bit 56 w)]"

definition le_word64 :: "u8 list \<Rightarrow> u64" where
  "le_word64 bs = ucast (bs ! 0) OR push_bit 8 (ucast (bs ! 1)) OR push_bit 16 (ucast (bs ! 2))
                    OR push_bit 24 (ucast (bs ! 3)) OR push_bit 32 (ucast (bs ! 4))
                    OR push_bit 40 (ucast (bs ! 5)) OR push_bit 48 (ucast (bs ! 6))
                    OR push_bit 56 (ucast (bs ! 7))"

fun store32 :: "endian \<Rightarrow> u32 \<Rightarrow> u8 list" where
  "store32 LittleEndian w = le_bytes32 w"
| "store32 BigEndian w = rev (le_bytes32 w)"

fun load32 :: "endian \<Rightarrow> u8 list \<Rightarrow> u32" where
  "load32 LittleEndian bs = le_word32 bs"
| "load32 BigEndian bs = le_word32 (rev (take 4 bs))"

fun store64 :: "endian \<Rightarrow> u64 \<Rightarrow> u8 list" where
  "store64 LittleEndian w = le_bytes64 w"
| "store64 BigEndian w = rev (le_bytes64 w)"

fun load64 :: "endian \<Rightarrow> u8 list \<Rightarrow> u64" where
  "load64 LittleEndian bs = le_word64 bs"
| "load64 BigEndian bs = le_word64 (rev (take 8 bs))"

definition bswap32 :: "u32 \<Rightarrow> u32" where
  "bswap32 w = le_word32 (rev (le_bytes32 w))"

definition bswap64 :: "u64 \<Rightarrow> u64" where
  "bswap64 w = le_word64 (rev (le_bytes64 w))"

fun htobe32 :: "endian \<Rightarrow> u32 \<Rightarrow> u32" where
  "htobe32 LittleEndian w = bswap32 w"
| "htobe32 BigEndian w = w"

fun be32toh :: "endian \<Rightarrow> u32 \<Rightarrow> u32" where
  "be32toh LittleEndian w = bswap32 w"
| "be32toh BigEndian w = w"

fun htobe64 :: "endian \<Rightarrow> u64 \<Rightarrow> u64" where
  "htobe64 LittleEndian w = bswap64 w"
| "htobe64 BigEndian w = w"

fun be64toh :: "endian \<Rightarrow> u64 \<Rightarrow> u64" where
  "be64toh LittleEndian w = bswap64 w"
| "be64toh BigEndian w = w"

section \<open>The histogram, zlib and the environment\<close>

text \<open>
  Modelled from the spec: \<^verbatim>\<open>struct hdr_histogram\<close> is declared in \<^verbatim>\<open>hdr_histogram.h\<close>,
  which is not among the sources. The spec's HistogramSnapshot gives the fields the codec
  reads and writes: \<open>significant_figures\<close> (int32), the two trackable values and
  \<open>total_count\<close> (int64), and the counts, \<open>counts_len\<close> of them. The field \<open>counts\<close> is
  the memory at \<^verbatim>\<open>h->counts\<close>, indexed as \<^verbatim>\<open>h->counts[i]\<close>; the array the constructor
  allocated ends at \<open>counts_len\<close>, and an index past it is memory past the array.
\<close>

record hdr_histogram =
  lowest_trackable_value :: u64
  highest_trackable_value :: u64
  significant_figures :: u32
  total_count :: u64
  counts_len :: nat
  counts :: "nat \<Rightarrow> u64"

text \<open>
  zlib is a library outside the repository: its functions are parameters of the model.
  Of a \<^verbatim>\<open>z_stream\<close> the model keeps the input not yet consumed (\<open>next_in\<close>, with
  \<^verbatim>\<open>avail_in\<close> its length), \<open>avail_out\<close>, \<open>total_out\<close> and the library's own state. A call
  of \<^verbatim>\<open>deflate\<close> or \<^verbatim>\<open>inflate\<close> is a function of that state, the input, \<open>avail_out\<close> and
  the flush mode; it returns zlib's code, the new state, the number of input bytes consumed
  and the bytes produced. \<open>zlib_call\<close> holds the library to its contract: no more than
  \<open>avail_out\<close> bytes are written at \<^verbatim>\<open>next_out\<close>. The numbers are those of \<^verbatim>\<open>zlib.h\<close>.
\<close>

record 'z z_stream =
  next_in :: "u8 list"
  avail_out :: nat
  total_out :: nat
  state :: 'z

definition Z_OK :: int where "Z_OK = 0"
definition Z_STREAM_END :: int where "Z_STREAM_END = 1"
definition Z_NO_FLUSH :: int where "Z_NO_FLUSH = 0"
definition Z_SYNC_FLUSH :: int where "Z_SYNC_FLUSH = 2"
definition Z_FINISH :: int where "Z_FINISH = 4"

type_synonym 'z zlib_call = "'z \<Rightarrow> u8 list \<Rightarrow> nat \<Rightarrow> int \<Rightarrow> int \<times> 'z \<times> nat \<times> u8 list"

text \<open>
  The environment of a run: the host's byte order, whether an allocation of a given size
  succeeds, the indeterminate contents of uninitialised stack memory and of memory fresh
  from \<^verbatim>\<open>malloc\<close> or \<^verbatim>\<open>realloc\<close>, the indeterminate value of the pointer \<^verbatim>\<open>h\<close> that
  \<^verbatim>\<open>hdr_decode_compressed\<close> declares without an initialiser (0 is the null pointer), the
  histogram constructor \<^verbatim>\<open>hdr_init\<close> (in \<^verbatim>\<open>hdr_histogram.c\<close>, not among the sources; \<open>None\<close> is
  a return other than 0) and zlib.
\<close>

record ('d, 'i) env =
  byte_order :: endian
  alloc_ok :: "nat \<Rightarrow> bool"
  stack :: "nat \<Rightarrow> u8"
  heap :: "nat \<Rightarrow> u8"
  uninit_h :: u64
  hdr_init :: "u64 \<Rightarrow> u64 \<Rightarrow> u32 \<Rightarrow> hdr_histogram option"
  deflateInit :: "int \<Rightarrow> int \<times> 'd"
  deflate :: "'d zlib_call"
  inflateInit :: "int \<times> 'i"
  inflate :: "'i zlib_call"

definition zlib_call :: "'z zlib_call \<Rightarrow> 'z z_stream \<Rightarrow> int \<Rightarrow> int \<times> 'z z_stream \<times> u8 list" where
  "zlib_call f strm flush =
     (case f (state strm) (next_in strm) (avail_out strm) flush of
        (r, z, consumed, produced) \<Rightarrow>
          (let written = take (avail_out strm) produced
           in (r,
               strm\<lparr>next_in := drop consumed (next_in strm),
                    avail_out := avail_out strm - length written,
                    total_out := total_out strm + length written,
                    state := z\<rparr>,
               written)))"

section \<open>Decoding: \<^verbatim>\<open>hdr_decode_compressed\<close>\<close>

text \<open>
  \<open>overlay written mem\<close> is a buffer after zlib wrote the bytes \<open>written\<close> at its start;
  \<open>bytes_at mem off n\<close> reads \<open>n\<close> bytes of it. The size of \<^verbatim>\<open>_compression_flyweight\<close> is
  8 and that of the packed \<^verbatim>\<open>_encoding_flyweight\<close> is 32 (4 + 4 + 8 + 8 + 8).
\<close>

definition overlay :: "u8 list \<Rightarrow> (nat \<Rightarrow> u8) \<Rightarrow> nat \<Rightarrow> u8" where
  "overlay written mem = (\<lambda>i. if i < length written then written ! i else mem i)"

definition bytes_at :: "(nat \<Rightarrow> u8) \<Rightarrow> nat \<Rightarrow> nat \<Rightarrow> u8 list" where
  "bytes_at mem off n = map mem [off ..< off + n]"

definition ENCODING_COOKIE :: u32 where
  "ENCODING_COOKIE = 0x1c849308 + push_bit 4 8"

definition COMPRESSION_COOKIE :: u32 where
  "COMPRESSION_COOKIE = 0x1c849309 + push_bit 4 8"

text \<open>
  The \<^verbatim>\<open>for\<close> loop over one inflated chunk: \<^verbatim>\<open>counts_array[i]\<close> is the 64-bit word at byte
  \<open>8 * i\<close> of the chunk buffer.
\<close>

function store_counts ::
  "endian \<Rightarrow> (nat \<Rightarrow> u8) \<Rightarrow> nat \<Rightarrow> nat \<Rightarrow> hdr_histogram \<Rightarrow> nat \<Rightarrow> u64
     \<Rightarrow> hdr_histogram \<times> nat \<times> u64" where
  "store_counts ord counts_array available_counts i h counts_index counts_tally =
     (if i < available_counts \<and> counts_index < counts_len h
      then (let v = be64toh ord (load64 ord (bytes_at counts_array (8 * i) 8));
                h' = h\<lparr>counts := (counts h)(counts_index := v)\<rparr>
            in store_counts ord counts_array available_counts (i + 1) h' (counts_index + 1)
                 (counts_tally + counts h' counts_index))
      else (h, counts_index, counts_tally))"
  by pat_completeness auto
termination
  by (relation "measure (\<lambda>(ord, counts_array, available_counts, i, h, counts_index, counts_tally).
                   available_counts - i)") auto

declare store_counts.simps [simp del]

text \<open>
  The \<^verbatim>\<open>do ... while (r == Z_OK)\<close> loop. Nothing in the code bounds the number of its
  rounds: it ends when zlib returns something else than \<^verbatim>\<open>Z_OK\<close>. A loop that never
  ends is the result \<open>None\<close>. On failure the histogram is freed and only the code is
  returned.
\<close>

partial_function (option) decode_counts_loop ::
  "('d, 'i) env \<Rightarrow> 'i z_stream \<Rightarrow> (nat \<Rightarrow> u8) \<Rightarrow> hdr_histogram \<Rightarrow> nat \<Rightarrow> u64
     \<Rightarrow> (result \<times> hdr_histogram) option" where
  "decode_counts_loop env strm counts_array h counts_index counts_tally =
     (case zlib_call (inflate env) (strm\<lparr>avail_out := 512 * 8\<rparr>) Z_SYNC_FLUSH of
        (r, strm', written) \<Rightarrow>
          if Z_STREAM_END \<noteq> r \<and> Z_OK \<noteq> r then Some (Failure HDR_INFLATE_FAIL, h)
          else
            (let counts_array' = overlay written counts_array;
                 available_counts = 512 - (avail_out strm' div 8)
             in case store_counts (byte_order env) counts_array' available_counts 0 h
                       counts_index counts_tally of
                  (h', counts_index', counts_tally') \<Rightarrow>
                    if r = Z_OK
                    then decode_counts_loop env strm' counts_array' h' counts_index' counts_tally'
                    else Some (Success, h')))"

text \<open>
  The label \<^verbatim>\<open>cleanup\<close> on a path that fails before \<^verbatim>\<open>hdr_init\<close> has set \<^verbatim>\<open>h\<close>:
  \<^verbatim>\<open>result\<close> is not 0 and the code calls \<^verbatim>\<open>free(h)\<close> on the uninitialised local. On a
  null pointer \<^verbatim>\<open>free\<close> does nothing and the function returns its code; on any other
  value the call is undefined behaviour and the run has no defined result. A failing
  \<^verbatim>\<open>hdr_init\<close> is taken to leave \<^verbatim>\<open>h\<close> as it was. What \<^verbatim>\<open>inflateEnd\<close> returns is
  dropped.
\<close>

definition cleanup_uninitialised ::
  "('d, 'i) env \<Rightarrow> hdr_error \<Rightarrow> hdr_histogram option \<Rightarrow> (result \<times> hdr_histogram option) option" where
  "cleanup_uninitialised env e histogram =
     (if uninit_h env = 0 then Some (Failure e, histogram) else None)"

text \<open>
  \<open>buffer\<close> is the memory at the pointer and \<open>len\<close> the \<^verbatim>\<open>length\<close> argument; \<open>histogram\<close>
  is the caller's slot \<^verbatim>\<open>*histogram\<close> before the call, and the second component of the
  result is the slot after it. zlib is given the \<^verbatim>\<open>compressed_length\<close> bytes after the
  envelope header (as many of them as the buffer has). Once \<^verbatim>\<open>hdr_init\<close> has returned 0,
  \<^verbatim>\<open>h\<close> is the histogram it allocated and \<^verbatim>\<open>free(h)\<close> on failure is sound.
\<close>

definition hdr_decode_compressed ::
  "('d, 'i) env \<Rightarrow> u8 list \<Rightarrow> nat \<Rightarrow> hdr_histogram option
     \<Rightarrow> (result \<times> hdr_histogram option) option" where
  "hdr_decode_compressed env buffer len histogram =
     (if len < 8 \<or> histogram \<noteq> None then cleanup_uninitialised env EINVAL histogram
      else if COMPRESSION_COOKIE \<noteq> be32toh (byte_order env) (load32 (byte_order env) buffer)
      then cleanup_uninitialised env HDR_COMPRESSION_COOKIE_MISMATCH histogram
      else
        (let compressed_length = be32toh (byte_order env) (load32 (byte_order env) (drop 4 buffer))
         in case inflateInit env of
              (r0, z) \<Rightarrow>
                if r0 \<noteq> Z_OK then cleanup_uninitialised env HDR_INFLATE_FAIL histogram
                else
                  (let strm = \<lparr>next_in = take (unat compressed_length) (drop 8 buffer),
                               avail_out = 32, total_out = 0, state = z\<rparr>
                   in case zlib_call (inflate env) strm Z_SYNC_FLUSH of
                        (r1, strm1, written) \<Rightarrow>
                          (let encoding_flyweight = overlay written (stack env)
                           in if r1 \<noteq> Z_OK
                              then cleanup_uninitialised env HDR_INFLATE_FAIL histogram
                              else if ENCODING_COOKIE \<noteq>
                                        be32toh (byte_order env)
                                          (load32 (byte_order env) (bytes_at encoding_flyweight 0 4))
                              then cleanup_uninitialised env HDR_ENCODING_COOKIE_MISMATCH histogram
                              else
                                (let lowest = be64toh (byte_order env)
                                                (load64 (byte_order env) (bytes_at encoding_flyweight 8 8));
                                     highest = be64toh (byte_order env)
                                                (load64 (byte_order env) (bytes_at encoding_flyweight 16 8));
                                     figures = be32toh (byte_order env)
                                                (load32 (byte_order env) (bytes_at encoding_flyweight 4 4))
                                 in case hdr_init env lowest highest figures of
                                      None \<Rightarrow> cleanup_uninitialised env ENOMEM histogram
                                    | Some h0 \<Rightarrow>
                                        (let h = h0\<lparr>total_count :=
                                                   be64toh (byte_order env)
                                                     (load64 (byte_order env)
                                                        (bytes_at encoding_flyweight 24 8))\<rparr>
                                         in case decode_counts_loop env strm1 (stack env) h 0 0 of
                                              None \<Rightarrow> None
                                            | Some (Success, h') \<Rightarrow> Some (Success, Some h')
                                            | Some (Failure e, h') \<Rightarrow> Some (Failure e, histogram)))))))"

section \<open>Encoding: \<^verbatim>\<open>hdr_encode_compressed\<close>\<close>

text \<open>
  The \<^verbatim>\<open>_encoding_flyweight\<close> as it lies in memory: every field is passed through
  \<^verbatim>\<open>htobe32\<close> or \<^verbatim>\<open>htobe64\<close> and stored by the host.
\<close>

definition encode_flyweight :: "endian \<Rightarrow> hdr_histogram \<Rightarrow> u8 list" where
  "encode_flyweight ord h =
     store32 ord (htobe32 ord ENCODING_COOKIE) @
     store32 ord (htobe32 ord (significant_figures h)) @
     store64 ord (htobe64 ord (lowest_trackable_value h)) @
     store64 ord (htobe64 ord (highest_trackable_value h)) @
     store64 ord (htobe64 ord (total_count h))"

text \<open>
  The inner \<^verbatim>\<open>while (i < counts_per_chunk && counts_index < h->counts_len)\<close>: it fills
  \<^verbatim>\<open>chunk\<close> with up to 512 counts and returns the \<open>8 * i\<close> bytes that zlib is given, \<open>i\<close>
  and the new \<open>counts_index\<close>.
\<close>

function fill_chunk ::
  "endian \<Rightarrow> hdr_histogram \<Rightarrow> nat \<Rightarrow> nat \<Rightarrow> u8 list \<Rightarrow> u8 list \<times> nat \<times> nat" where
  "fill_chunk ord h i counts_index chunk =
     (if i < 512 \<and> counts_index < counts_len h
      then fill_chunk ord h (i + 1) (counts_index + 1)
             (chunk @ store64 ord (htobe64 ord (counts h counts_index)))
      else (chunk, i, counts_index))"
  by pat_completeness auto
termination
  by (relation "measure (\<lambda>(ord, h, i, counts_index, chunk). 512 - i)") auto

declare fill_chunk.simps [simp del]

text \<open>
  The output side of the encoder: the stream, the allocated size \<^verbatim>\<open>len\<close>, the memory at
  \<^verbatim>\<open>buf\<close> (\<^verbatim>\<open>realloc\<close> keeps what was written) and \<^verbatim>\<open>strm.next_out\<close> as an offset into it.
  \<open>deflate_into\<close> is a call of \<^verbatim>\<open>deflate\<close> that writes at \<^verbatim>\<open>next_out\<close> and advances it.
  \<^verbatim>\<open>len\<close> is an \<^verbatim>\<open>int\<close> in the code and a natural number here: the model is the code for
  buffers below \<open>2\<^sup>3\<^sup>1\<close> bytes.
\<close>

definition write_at :: "(nat \<Rightarrow> u8) \<Rightarrow> nat \<Rightarrow> u8 list \<Rightarrow> nat \<Rightarrow> u8" where
  "write_at mem off out = (\<lambda>i. if off \<le> i \<and> i < off + length out then out ! (i - off) else mem i)"

record 'z encoder =
  enc_strm :: "'z z_stream"
  enc_len :: nat
  enc_buf :: "nat \<Rightarrow> u8"
  enc_next_out :: nat

definition deflate_into :: "('d, 'i) env \<Rightarrow> 'd encoder \<Rightarrow> int \<Rightarrow> int \<times> 'd encoder" where
  "deflate_into env b flush =
     (case zlib_call (deflate env) (enc_strm b) flush of
        (r, strm', out) \<Rightarrow>
          (r, b\<lparr>enc_strm := strm', enc_buf := write_at (enc_buf b) (enc_next_out b) out,
                 enc_next_out := enc_next_out b + length out\<rparr>))"

text \<open>
  The \<^verbatim>\<open>while (strm.avail_out == 0)\<close> loop: double the buffer, point zlib at its new half
  and call \<^verbatim>\<open>deflate\<close> with \<^verbatim>\<open>Z_SYNC_FLUSH\<close>. Nothing but memory bounds its rounds.
\<close>

partial_function (option) grow_buffer ::
  "('d, 'i) env \<Rightarrow> 'd encoder \<Rightarrow> (result \<times> 'd encoder) option" where
  "grow_buffer env b =
     (if avail_out (enc_strm b) = 0
      then (let new_len = enc_len b * 2
            in if \<not> alloc_ok env new_len then Some (Failure ENOMEM, b)
               else (case deflate_into env
                            (b\<lparr>enc_strm := (enc_strm b)\<lparr>avail_out := enc_len b\<rparr>,
                               enc_next_out := enc_len b, enc_len := new_len\<rparr>) Z_SYNC_FLUSH of
                       (r, b') \<Rightarrow>
                         if r \<noteq> Z_OK then Some (Failure HDR_DEFLATE_FAIL, b')
                         else grow_buffer env b'))
      else Some (Success, b))"

text \<open>
  The \<^verbatim>\<open>do ... while (r != Z_STREAM_END)\<close> loop. Each round points \<^verbatim>\<open>strm.next_in\<close> at
  the chunk just filled: input that zlib left unread in the round before is given up.
\<close>

partial_function (option) encode_counts_loop ::
  "('d, 'i) env \<Rightarrow> hdr_histogram \<Rightarrow> 'd encoder \<Rightarrow> nat \<Rightarrow> (result \<times> 'd encoder) option" where
  "encode_counts_loop env h b counts_index =
     (case grow_buffer env b of
        None \<Rightarrow> None
      | Some (Failure e, b1) \<Rightarrow> Some (Failure e, b1)
      | Some (Success, b1) \<Rightarrow>
          (case fill_chunk (byte_order env) h 0 counts_index [] of
             (chunk, i, counts_index') \<Rightarrow>
               (let flush = (if i = 0 then Z_FINISH else Z_NO_FLUSH)
                in case deflate_into env (b1\<lparr>enc_strm := (enc_strm b1)\<lparr>next_in := chunk\<rparr>\<rparr>) flush of
                     (r, b2) \<Rightarrow>
                       if r \<noteq> Z_OK \<and> r \<noteq> Z_STREAM_END then Some (Failure HDR_DEFLATE_FAIL, b2)
                       else if r \<noteq> Z_STREAM_END
                       then encode_counts_loop env h b2 counts_index'
                       else Some (Success, b2))))"

text \<open>
  The result is the return code and, on success, what the two output pointers receive:
  the \<^verbatim>\<open>len\<close> bytes of the buffer and \<^verbatim>\<open>*compressed_len\<close>. On failure the buffer is
  freed and the pointers are left alone. \<^verbatim>\<open>strm.total_out\<close> is cut to the 32 bits of
  \<^verbatim>\<open>htobe32\<close>'s argument; \<^verbatim>\<open>sizeof(_compression_flyweight) + comp_fw->length\<close> is
  computed in \<^verbatim>\<open>size_t\<close> and cut to the \<^verbatim>\<open>int\<close> behind \<^verbatim>\<open>compressed_len\<close>, which is the
  32-bit sum read as a signed number.
\<close>

definition hdr_encode_compressed ::
  "('d, 'i) env \<Rightarrow> hdr_histogram \<Rightarrow> (result \<times> (u8 list \<times> int) option) option" where
  "hdr_encode_compressed env h =
     (if \<not> alloc_ok env 4096 then Some (Failure ENOMEM, None)
      else (case deflateInit env 4 of
              (r0, z) \<Rightarrow>
                if r0 \<noteq> Z_OK then Some (Failure HDR_DEFLATE_INIT_FAIL, None)
                else
                  (let b = \<lparr>enc_strm = \<lparr>next_in = encode_flyweight (byte_order env) h,
                                         avail_out = 4096 - 8, total_out = 0, state = z\<rparr>,
                            enc_len = 4096, enc_buf = heap env, enc_next_out = 8\<rparr>
                   in case deflate_into env b Z_NO_FLUSH of
                        (r1, b1) \<Rightarrow>
                          if r1 \<noteq> Z_OK then Some (Failure HDR_DEFLATE_FAIL, None)
                          else
                            (case encode_counts_loop env h b1 0 of
                               None \<Rightarrow> None
                             | Some (Failure e, b2) \<Rightarrow> Some (Failure e, None)
                             | Some (Success, b2) \<Rightarrow>
                                 (let cookie = htobe32 (byte_order env) COMPRESSION_COOKIE;
                                      length_field = htobe32 (byte_order env)
                                                       (word_of_nat (total_out (enc_strm b2)));
                                      buf = write_at
                                              (write_at (enc_buf b2) 0 (store32 (byte_order env) cookie))
                                              4 (store32 (byte_order env) length_field);
                                      compressed_len = sint (8 + length_field)
                                  in Some (Success,
                                           Some (bytes_at buf 0 (enc_len b2), compressed_len)))))))"

section \<open>The log: C strings, \<^verbatim>\<open>sscanf\<close> and lines of a file\<close>

text \<open>
  The C library is outside the repository; what the file uses of it is modelled after
  ISO C. \<^verbatim>\<open>isspace\<close> is that of the C locale. A C string ends at its first NUL:
  \<open>c_str\<close> is the string a buffer holds.
\<close>

definition isspace :: "char \<Rightarrow> bool" where
  "isspace c \<longleftrightarrow> c \<in> set [CHR '' '', CHR 0x09, CHR 0x0A, CHR 0x0B, CHR 0x0C, CHR 0x0D]"

definition c_str :: "string \<Rightarrow> string" where
  "c_str s = takeWhile (\<lambda>c. c \<noteq> CHR 0x00) s"

definition strlen :: "string \<Rightarrow> nat" where
  "strlen s = length (c_str s)"

text \<open>
  \<^verbatim>\<open>null_trailing_whitespace\<close>: the index \<open>len\<close> here is the source's \<open>i + 1\<close>; the
  buffer after the loop and the value returned.
\<close>

function null_trailing_whitespace :: "string \<Rightarrow> nat \<Rightarrow> string \<times> nat" where
  "null_trailing_whitespace s len =
     (if len = 0 then (s, 0)
      else if isspace (s ! (len - 1))
      then null_trailing_whitespace (s[len - 1 := CHR 0x00]) (len - 1)
      else (s, len))"
  by pat_completeness auto
termination
  by (relation "measure (\<lambda>(s, len). len)") auto

declare null_trailing_whitespace.simps [simp del]

fun starts_with_loop :: "string \<Rightarrow> char \<Rightarrow> bool" where
  "starts_with_loop [] c = True"
| "starts_with_loop (x # xs) c = (if \<not> isspace x then x = c else starts_with_loop xs c)"

definition starts_with :: "string \<Rightarrow> char \<Rightarrow> bool" where
  "starts_with s c = starts_with_loop (c_str s) c"

definition is_comment :: "string \<Rightarrow> bool" where
  "is_comment s = starts_with s CHR ''#''"

text \<open>
  \<^verbatim>\<open>sscanf\<close>, for the formats of the file: white space in the format skips any white space
  of the input, \<^verbatim>\<open>%d\<close> skips white space and reads an optionally signed decimal number,
  \<^verbatim>\<open>%s\<close> skips white space and reads the characters up to the next white space, every
  other character must be the next character of the input. The scan stops at the first
  directive that fails. The model returns the values converted so far: their number is
  what \<^verbatim>\<open>sscanf\<close> returns, but for \<^verbatim>\<open>EOF\<close> (the input ends before the first conversion),
  which the file's comparisons with 2 and with 7 treat like 0. A number outside the range
  of \<^verbatim>\<open>int\<close> is stored reduced to 32 bits.
\<close>

datatype directive = Whitespace | Literal char | ConvInt | ConvString

fun parse_format :: "string \<Rightarrow> directive list" where
  "parse_format (c # d # r) =
     (if c = CHR ''%'' \<and> d = CHR ''d'' then ConvInt # parse_format r
      else if c = CHR ''%'' \<and> d = CHR ''s'' then ConvString # parse_format r
      else (if isspace c then Whitespace else Literal c) # parse_format (d # r))"
| "parse_format [c] = [if isspace c then Whitespace else Literal c]"
| "parse_format [] = []"

datatype scan_value = IntValue int | StrValue string

definition is_digit :: "char \<Rightarrow> bool" where
  "is_digit c \<longleftrightarrow> (48 :: nat) \<le> of_char c \<and> of_char c \<le> (57 :: nat)"

definition digit_value :: "char \<Rightarrow> int" where
  "digit_value c = of_char c - 48"

fun scan_digits :: "string \<Rightarrow> int \<Rightarrow> int \<times> string" where
  "scan_digits [] acc = (acc, [])"
| "scan_digits (c # cs) acc =
     (if is_digit c then scan_digits cs (acc * 10 + digit_value c) else (acc, c # cs))"

definition scan_int :: "string \<Rightarrow> (int \<times> string) option" where
  "scan_int s =
     (case s of
        [] \<Rightarrow> None
      | c # cs \<Rightarrow>
          if c = CHR ''-'' \<or> c = CHR ''+''
          then (case cs of
                  [] \<Rightarrow> None
                | d # r \<Rightarrow>
                    if is_digit d
                    then (case scan_digits cs 0 of
                            (v, rest) \<Rightarrow> Some (if c = CHR ''-'' then - v else v, rest))
                    else None)
          else if is_digit c then Some (scan_digits s 0)
          else None)"

fun sscanf_run :: "directive list \<Rightarrow> string \<Rightarrow> scan_value list \<Rightarrow> scan_value list" where
  "sscanf_run [] s acc = acc"
| "sscanf_run (Whitespace # ds) s acc = sscanf_run ds (dropWhile isspace s) acc"
| "sscanf_run (Literal c # ds) s acc =
     (case s of [] \<Rightarrow> acc | x # xs \<Rightarrow> if x = c then sscanf_run ds xs acc else acc)"
| "sscanf_run (ConvInt # ds) s acc =
     (case scan_int (dropWhile isspace s) of
        None \<Rightarrow> acc
      | Some (v, rest) \<Rightarrow> sscanf_run ds rest (acc @ [IntValue v]))"
| "sscanf_run (ConvString # ds) s acc =
     (let s' = dropWhile isspace s;
          token = takeWhile (\<lambda>c. \<not> isspace c) s'
      in if token = [] then acc
         else sscanf_run ds (dropWhile (\<lambda>c. \<not> isspace c) s') (acc @ [StrValue token]))"

definition sscanf :: "string \<Rightarrow> string \<Rightarrow> scan_value list" where
  "sscanf str format = sscanf_run (parse_format format) (c_str str) []"

section \<open>The log: header lines\<close>

record log_header =
  major_version :: u32
  minor_version :: u32
  start_time_ms :: u64

definition scan_log_format :: "string \<Rightarrow> log_header \<Rightarrow> log_header" where
  "scan_log_format line header =
     (case sscanf line ''#[Histogram log format version %d.%d]'' of
        [IntValue major] \<Rightarrow> header\<lparr>major_version := word_of_int major\<rparr>
      | [IntValue major, IntValue minor] \<Rightarrow>
          header\<lparr>major_version := word_of_int major, minor_version := word_of_int minor\<rparr>
      | _ \<Rightarrow> header)"

text \<open>
  \<^verbatim>\<open>scan_start_time\<close> passes the addresses of two \<^verbatim>\<open>int64_t\<close> variables, initialised to
  0, for \<^verbatim>\<open>%d\<close>: \<^verbatim>\<open>sscanf\<close> stores an \<^verbatim>\<open>int\<close> in the first four of their eight bytes.
  The newline of the format is written as the character \<open>0A\<close>.
\<close>

definition int_in_int64 :: "endian \<Rightarrow> int \<Rightarrow> u64" where
  "int_in_int64 ord v = load64 ord (store32 ord (word_of_int v) @ [0, 0, 0, 0])"

definition scan_start_time :: "endian \<Rightarrow> string \<Rightarrow> log_header \<Rightarrow> log_header" where
  "scan_start_time ord line header =
     (case sscanf line (''#[StartTime: %d.%d [^'' @ [CHR 0x0A] @ '']'') of
        [IntValue s, IntValue ms] \<Rightarrow>
          (let timestamp_s = int_in_int64 ord s;
               trailing_ms = int_in_int64 ord ms
           in header\<lparr>start_time_ms := (timestamp_s * 1000) + trailing_ms\<rparr>)
      | _ \<Rightarrow> header)"

text \<open>
  A file open for reading is the text not yet read. \<^verbatim>\<open>fgets\<close> reads up to the next
  newline, at most \<open>n - 1\<close> characters; \<^verbatim>\<open>getline\<close> reads the whole line. Both return
  nothing at the end of the file.
\<close>

fun line_prefix :: "string \<Rightarrow> string" where
  "line_prefix [] = []"
| "line_prefix (c # cs) = (if c = CHR 0x0A then [c] else c # line_prefix cs)"

definition fgets :: "nat \<Rightarrow> string \<Rightarrow> (string \<times> string) option" where
  "fgets n f =
     (if f = [] then None
      else (let line = take (n - 1) (line_prefix f) in Some (line, drop (length line) f)))"

definition getline :: "string \<Rightarrow> (string \<times> string) option" where
  "getline f =
     (if f = [] then None
      else (let line = line_prefix f in Some (line, drop (length line) f)))"

lemma line_prefix_nonempty: "f \<noteq> [] \<Longrightarrow> line_prefix f \<noteq> []"
  by (cases f) auto

lemma length_line_prefix: "length (line_prefix f) \<le> length f"
  by (induction f) auto

lemma fgets_shorter:
  assumes "fgets n f = Some (line, f')" and "1 < n"
  shows "length f' < length f"
proof -
  have ne: "f \<noteq> []" using assms by (auto simp: fgets_def split: if_splits)
  then have "0 < length (take (n - 1) (line_prefix f))"
    using line_prefix_nonempty [OF ne] assms(2) by simp
  then show ?thesis using assms ne by (auto simp: fgets_def Let_def split: if_splits)
qed

lemma getline_shorter:
  assumes "getline f = Some (line, f')"
  shows "length f' < length f"
proof -
  have ne: "f \<noteq> []" using assms by (auto simp: getline_def split: if_splits)
  then have "0 < length (line_prefix f)" using line_prefix_nonempty [OF ne] by simp
  then show ?thesis using assms ne by (auto simp: getline_def Let_def split: if_splits)
qed

function parse_log_comments_loop :: "endian \<Rightarrow> string \<Rightarrow> log_header \<Rightarrow> log_header \<times> string" where
  "parse_log_comments_loop ord f header =
     (case fgets 4096 f of
        None \<Rightarrow> (header, f)
      | Some (line, f') \<Rightarrow>
          if is_comment line
          then parse_log_comments_loop ord f' (scan_start_time ord line (scan_log_format line header))
          else (header, f'))"
  by pat_completeness auto
termination
  by (relation "measure (\<lambda>(ord, f, header). length f)") (auto dest: fgets_shorter)

declare parse_log_comments_loop.simps [simp del]

definition parse_log_comments :: "endian \<Rightarrow> string \<Rightarrow> log_header \<times> string" where
  "parse_log_comments ord f =
     parse_log_comments_loop ord f \<lparr>major_version = 0, minor_version = 0, start_time_ms = 0\<rparr>"

section \<open>The log: record lines\<close>

text \<open>
  The loop of \<^verbatim>\<open>parse_lines\<close>. \<^verbatim>\<open>realloc_buffer\<close> is called twice with
  \<^verbatim>\<open>nmemb = sizeof(char)\<close> and \<^verbatim>\<open>size = read\<close> and zeroes both buffers. The decoded bytes
  lie at the start of \<^verbatim>\<open>compressed_histogram\<close>, a buffer of \<open>read\<close> zeroed bytes.
  \<^verbatim>\<open>hdr_percentiles_print\<close> is outside the file: the model keeps the list of the histograms
  handed to it. The result is the code returned, the rest of the file and that list. The
  parameter \<^verbatim>\<open>histogram\<close> of \<^verbatim>\<open>parse_lines\<close> and \<^verbatim>\<open>result\<close> of \<^verbatim>\<open>hdr_parse_log\<close> are
  never read or written.
\<close>

function parse_lines_loop ::
  "('d, 'i) env \<Rightarrow> string \<Rightarrow> hdr_histogram list
     \<Rightarrow> (result \<times> string \<times> hdr_histogram list) option" where
  "parse_lines_loop env f printed =
     (case getline f of
        None \<Rightarrow> Some (Success, f, printed)
      | Some (line, f') \<Rightarrow>
          (let read = length line
           in if \<not> alloc_ok env (1 * read) then Some (Failure ENOMEM, f', printed)
              else if \<not> alloc_ok env (1 * read) then Some (Failure ENOMEM, f', printed)
              else
                (let fields = sscanf line ''%d.%d,%d.%d,%d.%d,%s''
                 in if length fields \<noteq> 7 then Some (Failure EINVAL, f', printed)
                    else
                      (let token = (case fields ! 6 of StrValue t \<Rightarrow> t | IntValue v \<Rightarrow> []);
                           base64_histogram = fst (null_trailing_whitespace token (strlen token));
                           base64_len = strlen base64_histogram;
                           compressed_len = base64_decoded_len base64_len
                       in case base64_decode (c_str base64_histogram) compressed_len of
                            None \<Rightarrow> None
                          | Some (Inl e) \<Rightarrow> Some (Failure e, f', printed)
                          | Some (Inr decoded) \<Rightarrow>
                              (let compressed_histogram =
                                     decoded @ replicate (read - length decoded) 0
                               in case hdr_decode_compressed env compressed_histogram
                                         compressed_len None of
                                    None \<Rightarrow> None
                                  | Some (Success, h) \<Rightarrow>
                                      parse_lines_loop env f' (printed @ [the h])
                                  | Some (Failure e, h) \<Rightarrow>
                                      parse_lines_loop env f' printed)))))"
  by pat_completeness auto
termination
  by (relation "measure (\<lambda>(env, f, printed). length f)") (auto dest: getline_shorter)

declare parse_lines_loop.simps [simp del]

definition parse_lines ::
  "('d, 'i) env \<Rightarrow> string \<Rightarrow> (result \<times> string \<times> hdr_histogram list) option" where
  "parse_lines env f = parse_lines_loop env f []"

definition hdr_parse_log ::
  "('d, 'i) env \<Rightarrow> string \<Rightarrow> (result \<times> string \<times> hdr_histogram list) option" where
  "hdr_parse_log env f =
     (case parse_log_comments (byte_order env) f of
        (header, f1) \<Rightarrow>
          (case parse_lines env f1 of
             None \<Rightarrow> None
           | Some (r, f2, printed) \<Rightarrow> Some (Success, f2, printed)))"

chapter \<open>Verification\<close>

section \<open>Base64: words and blocks\<close>

lemma nat_and_3: "(n::nat) AND 3 = n mod 4"
proof -
  have "(3::nat) = mask 2" by (simp add: mask_eq_exp_minus_1)
  then have "n AND 3 = take_bit 2 n" by (simp add: take_bit_eq_mask)
  then show ?thesis by (simp add: take_bit_eq_mod)
qed

lemma from_base_64_table_all:
  "list_all (\<lambda>k. from_base_64 (char_int (base64_table ! k)) = int k) [0..<64]"
  by code_simp

lemma from_base_64_table:
  assumes "k < 64"
  shows "from_base_64 (char_int (base64_table ! k)) = int k"
  using from_base_64_table_all assms by (simp add: list_all_iff)

lemma word6_roundtrip:
  fixes v :: u32
  shows "word_of_int (from_base_64 (char_int (get_base_64 v s))) = (0x3F AND drop_bit s v)"
proof -
  have "(0x3F :: u32) = mask 6" by (simp add: mask_eq_exp_minus_1)
  then have "(0x3F AND drop_bit s v) = take_bit 6 (drop_bit s v)" by (simp add: take_bit_eq_mask and.commute)
  then have "unat (0x3F AND drop_bit s v) < 64"
    using take_bit_nat_less_exp [of 6 "unat (drop_bit s v)"] by (simp add: unsigned_take_bit_eq)
  then show ?thesis
    by (simp add: get_base_64_def from_base_64_table)
qed


lemma bytes24_or:
  fixes a b c :: u8
  shows "(push_bit 16 (ucast a) + push_bit 8 (ucast b) + ucast c :: u32)
           = push_bit 16 (ucast a) OR push_bit 8 (ucast b) OR ucast c"
proof -
  have 1: "(push_bit 16 (ucast a) + push_bit 8 (ucast b) :: u32)
             = push_bit 16 (ucast a) OR push_bit 8 (ucast b)"
    by (rule disjunctive_add) (auto simp: bit_simps dest: bit_imp_le_length)
  have 2: "((push_bit 16 (ucast a) OR push_bit 8 (ucast b)) + ucast c :: u32)
             = (push_bit 16 (ucast a) OR push_bit 8 (ucast b)) OR ucast c"
    by (rule disjunctive_add) (auto simp: bit_simps dest: bit_imp_le_length)
  show ?thesis by (simp add: 1 2 or.assoc)
qed

definition regroup :: "u32 \<Rightarrow> u32" where
  "regroup v = push_bit 18 (0x3F AND drop_bit 18 v) OR push_bit 12 (0x3F AND drop_bit 12 v)
                 OR push_bit 6 (0x3F AND drop_bit 6 v) OR (0x3F AND drop_bit 0 v)"

lemma regroup_take_bit: "regroup v = take_bit 24 v"
proof (rule bit_word_eqI)
  fix n
  assume "n < LENGTH(32)"
  have m: "(0x3F :: u32) = mask 6" by (simp add: mask_eq_exp_minus_1)
  consider "n < 6" | "6 \<le> n \<and> n < 12" | "12 \<le> n \<and> n < 18" | "18 \<le> n \<and> n < 24" | "24 \<le> n"
    by linarith
  then show "bit (regroup v) n = bit (take_bit 24 v) n"
  proof cases
    case 1 then show ?thesis unfolding regroup_def m by (auto simp add: bit_simps)
  next
    case 2 then show ?thesis unfolding regroup_def m by (auto simp add: bit_simps)
  next
    case 3 then show ?thesis unfolding regroup_def m by (auto simp add: bit_simps)
  next
    case 4 then show ?thesis unfolding regroup_def m by (auto simp add: bit_simps)
  next
    case 5 then show ?thesis unfolding regroup_def m by (auto simp add: bit_simps)
  qed
qed

lemma take_bit_24_bytes:
  fixes a b c :: u8
  shows "take_bit 24 (push_bit 16 (ucast a) OR push_bit 8 (ucast b) OR ucast c :: u32)
           = push_bit 16 (ucast a) OR push_bit 8 (ucast b) OR ucast c"
  by (rule bit_word_eqI) (auto simp: bit_simps dest: bit_imp_le_length)

lemma byte2:
  fixes a b c :: u8
  shows "ucast (drop_bit 16 (push_bit 16 (ucast a) OR push_bit 8 (ucast b) OR ucast c :: u32) AND 0xFF) = a"
proof -
  have m: "(0xFF :: u32) = mask 8" by (simp add: mask_eq_exp_minus_1)
  show ?thesis
    unfolding m
    by (rule bit_word_eqI) (auto simp: bit_simps dest: bit_imp_le_length)
qed

lemma byte1:
  fixes a b c :: u8
  shows "ucast (drop_bit 8 (push_bit 16 (ucast a) OR push_bit 8 (ucast b) OR ucast c :: u32) AND 0xFF) = b"
proof -
  have m: "(0xFF :: u32) = mask 8" by (simp add: mask_eq_exp_minus_1)
  show ?thesis
    unfolding m
    by (rule bit_word_eqI) (auto simp: bit_simps dest: bit_imp_le_length)
qed

lemma byte0:
  fixes a b c :: u8
  shows "ucast ((push_bit 16 (ucast a) OR push_bit 8 (ucast b) OR ucast c :: u32) AND 0xFF) = c"
proof -
  have m: "(0xFF :: u32) = mask 8" by (simp add: mask_eq_exp_minus_1)
  show ?thesis
    unfolding m
    by (rule bit_word_eqI) (auto simp: bit_simps dest: bit_imp_le_length)
qed


lemma low6_zero_pad2:
  fixes a b :: u8
  shows "0x3F AND (push_bit 16 (ucast a) OR push_bit 8 (ucast b) :: u32) = 0"
proof -
  have m: "(0x3F :: u32) = mask 6" by (simp add: mask_eq_exp_minus_1)
  show ?thesis unfolding m by (rule bit_word_eqI) (auto simp: bit_simps)
qed

lemma low6_zero_pad1:
  fixes a :: u8
  shows "0x3F AND (push_bit 16 (ucast a) :: u32) = 0"
proof -
  have m: "(0x3F :: u32) = mask 6" by (simp add: mask_eq_exp_minus_1)
  show ?thesis unfolding m by (rule bit_word_eqI) (auto simp: bit_simps)
qed

lemma mid6_zero_pad1:
  fixes a :: u8
  shows "0x3F AND drop_bit 6 (push_bit 16 (ucast a) :: u32) = 0"
proof -
  have m: "(0x3F :: u32) = mask 6" by (simp add: mask_eq_exp_minus_1)
  show ?thesis unfolding m by (rule bit_word_eqI) (auto simp: bit_simps)
qed


definition sextet :: "char \<Rightarrow> u32" where
  "sextet c = word_of_int (from_base_64 (char_int c))"

definition join6 :: "u32 \<Rightarrow> u32 \<Rightarrow> u32 \<Rightarrow> u32 \<Rightarrow> u32" where
  "join6 x0 x1 x2 x3 = push_bit 18 x0 OR push_bit 12 x1 OR push_bit 6 x2 OR x3"

definition unpack :: "u32 \<Rightarrow> u8 list" where
  "unpack w = [ucast (drop_bit 16 w AND 0xFF), ucast (drop_bit 8 w AND 0xFF), ucast (w AND 0xFF)]"

lemma decode_block_join:
  "base64_decode_block (c0 # c1 # c2 # c3 # rest)
     = unpack (join6 (sextet c0) (sextet c1) (sextet c2) (sextet c3))"
  by (simp add: base64_decode_block_def unpack_def join6_def sextet_def Let_def or.assoc)

lemma sextet_get: "sextet (get_base_64 v s) = 0x3F AND drop_bit s v"
  unfolding sextet_def by (rule word6_roundtrip)

lemma sextet_pad: "sextet CHR ''='' = 0"
  by (simp add: sextet_def from_base_64_def char_int_def)

lemma regroup_join:
  "regroup v = join6 (0x3F AND drop_bit 18 v) (0x3F AND drop_bit 12 v)
                 (0x3F AND drop_bit 6 v) (0x3F AND drop_bit 0 v)"
  by (simp only: regroup_def join6_def)

lemma unpack_bytes:
  "unpack (push_bit 16 (ucast a) OR push_bit 8 (ucast b) OR ucast c) = [a, b, c]"
  unfolding unpack_def by (simp only: byte2 byte1 byte0)

lemma decode_encode_block:
  "base64_decode_block (base64_encode_block [a, b, c] @ rest) = [a, b, c]"
proof -
  define v :: u32 where "v = push_bit 16 (ucast a) OR push_bit 8 (ucast b) OR ucast c"
  have e: "base64_encode_block [a, b, c]
             = [get_base_64 v 18, get_base_64 v 12, get_base_64 v 6, get_base_64 v 0]"
    by (simp add: base64_encode_block_def bytes24_or v_def Let_def)
  have r: "regroup v = v"
    unfolding v_def by (simp only: regroup_take_bit take_bit_24_bytes)
  have "base64_decode_block (base64_encode_block [a, b, c] @ rest) = unpack (regroup v)"
    by (simp only: e append.simps decode_block_join sextet_get regroup_join)
  then show ?thesis
    unfolding r unfolding v_def by (simp only: unpack_bytes)
qed

lemma decode_encode_pad2:
  "base64_decode_block (base64_encode_block_pad [a, b] 2 @ rest) = [a, b, 0]"
proof -
  define v :: u32 where "v = push_bit 16 (ucast a) OR push_bit 8 (ucast b) OR ucast (0 :: u8)"
  have v': "v = push_bit 16 (ucast a) OR push_bit 8 (ucast b)" by (simp add: v_def)
  have s: "(push_bit 16 (ucast a) + push_bit 8 (ucast b) :: u32) = v"
    using bytes24_or [of a b 0] by (simp add: v_def)
  have e: "base64_encode_block_pad [a, b] 2
             = [get_base_64 v 18, get_base_64 v 12, get_base_64 v 6, CHR ''='']"
    by (simp add: base64_encode_block_pad_def s Let_def)
  have r: "regroup v = v"
    unfolding v_def by (simp only: regroup_take_bit take_bit_24_bytes)
  have z: "0x3F AND drop_bit 0 v = 0" unfolding v' by (simp add: low6_zero_pad2)
  have "base64_decode_block (base64_encode_block_pad [a, b] 2 @ rest) = unpack (regroup v)"
    by (simp only: e append.simps decode_block_join sextet_get sextet_pad regroup_join z)
  then show ?thesis
    unfolding r unfolding v_def by (simp only: unpack_bytes)
qed

lemma decode_encode_pad1:
  "base64_decode_block (base64_encode_block_pad [a] 1 @ rest) = [a, 0, 0]"
proof -
  define v :: u32 where "v = push_bit 16 (ucast a) OR push_bit 8 (ucast (0 :: u8)) OR ucast (0 :: u8)"
  have v': "v = push_bit 16 (ucast a)" by (simp add: v_def)
  have e: "base64_encode_block_pad [a] 1
             = [get_base_64 v 18, get_base_64 v 12, CHR ''='', CHR ''='']"
    by (simp add: base64_encode_block_pad_def v' Let_def)
  have r: "regroup v = v"
    unfolding v_def by (simp only: regroup_take_bit take_bit_24_bytes)
  have z: "0x3F AND drop_bit 0 v = 0" unfolding v' by (simp add: low6_zero_pad1)
  have z2: "0x3F AND drop_bit 6 v = 0" unfolding v' by (rule mid6_zero_pad1)
  have "base64_decode_block (base64_encode_block_pad [a] 1 @ rest) = unpack (regroup v)"
    by (simp only: e append.simps decode_block_join sextet_get sextet_pad regroup_join z z2)
  then show ?thesis
    unfolding r unfolding v_def by (simp only: unpack_bytes)
qed


fun encode_chunks :: "u8 list \<Rightarrow> char list" where
  "encode_chunks (a # b # c # rest) = base64_encode_block [a, b, c] @ encode_chunks rest"
| "encode_chunks [a, b] = base64_encode_block_pad [a, b] 2"
| "encode_chunks [a] = base64_encode_block_pad [a] 1"
| "encode_chunks [] = []"

fun decode_chunks :: "char list \<Rightarrow> u8 list" where
  "decode_chunks (c0 # c1 # c2 # c3 # rest) = base64_decode_block [c0, c1, c2, c3] @ decode_chunks rest"
| "decode_chunks _ = []"

lemma ceil3_pos: "0 < n \<Longrightarrow> 1 \<le> (n + 2) div (3::nat)"
proof -
  assume "0 < n"
  then have "3 div 3 \<le> (n + 2) div (3::nat)" by (intro div_le_mono) simp
  then show ?thesis by simp
qed

lemma ceil3_step: "3 * k + 3 \<le> n \<Longrightarrow> k < (n + 2) div (3::nat)"
proof -
  assume "3 * k + 3 \<le> n"
  then have "(3 * (k + 1)) div 3 \<le> (n + 2) div (3::nat)" by (intro div_le_mono) simp
  then show ?thesis by simp
qed

lemma ceil3_add3: "(n + 3 + 2) div 3 = (n + 2) div (3::nat) + 1"
  by simp

lemma mod3_div: "i mod 3 = 0 \<Longrightarrow> (i + 3) div 3 = i div (3::nat) + 1"
  by simp

lemma sub4: "(n - i) mod 4 = 0 \<Longrightarrow> i < n \<Longrightarrow> 4 \<le> n - (i::nat)"
  by (metis dvd_imp_le mod_0_imp_dvd zero_less_diff)

lemma sub4b: "(n - i) mod 4 = 0 \<Longrightarrow> i < n \<Longrightarrow> (n - (i + 4)) mod 4 = (0::nat)"
proof -
  assume a: "(n - i) mod 4 = 0" "i < n"
  then have "4 \<le> n - i" by (rule sub4)
  then have "n - i = (n - (i + 4)) + 4" by simp
  then show ?thesis using a(1) by (metis mod_add_self2)
qed


lemma list3_ex: "3 \<le> length xs \<Longrightarrow> \<exists>a b c r. xs = a # b # c # r"
  by (auto simp: numeral_3_eq_3 Suc_le_length_iff)

lemma list4_ex: "4 \<le> length xs \<Longrightarrow> \<exists>a b c d r. xs = a # b # c # d # r"
  by (auto simp: numeral_eq_Suc Suc_le_length_iff)

lemma encode_block_prefix:
  "base64_encode_block (a # b # c # rest) = base64_encode_block [a, b, c]"
  by (simp add: base64_encode_block_def)

lemma decode_block_prefix:
  "base64_decode_block (c0 # c1 # c2 # c3 # rest) = base64_decode_block [c0, c1, c2, c3]"
  by (simp add: base64_decode_block_def)

lemma length_encode_block [simp]: "length (base64_encode_block xs) = 4"
  by (simp add: base64_encode_block_def Let_def)

lemma length_decode_block [simp]: "length (base64_decode_block xs) = 3"
  by (simp add: base64_decode_block_def Let_def)

lemma encode_pad_short:
  "length xs < 3 \<Longrightarrow> base64_encode_block_pad xs (length xs) = encode_chunks xs"
proof -
  assume "length xs < 3"
  then consider "xs = []" | a where "xs = [a]" | a b where "xs = [a, b]"
    by (cases xs; cases "tl xs"; cases "tl (tl xs)"; auto)
  then show ?thesis
    by cases (simp_all add: base64_encode_block_pad_def)
qed

lemma encoded_len_ge: "n \<le> base64_encoded_len n"
proof -
  have "n \<le> 3 * ((n + 2) div 3)" by presburger
  also have "\<dots> \<le> ((n + 2) div 3) * 4" by simp
  finally show ?thesis by (simp add: base64_encoded_len_def)
qed

lemma encode_loop_chunks:
  assumes "i mod 3 = 0" "j = (i div 3) * 4" "output_len = base64_encoded_len (length input)"
    and "output_len \<le> INT_MAX"
  shows "\<exists>i' j' out'.
           base64_encode_loop input output_len i j out = Some (i', j', out') \<and>
           out' @ base64_encode_block_pad (drop i' input) (length input - i')
             = out @ encode_chunks (drop i input)"
  using assms
proof (induction input output_len i j out rule: base64_encode_loop.induct)
  case (1 input output_len i j out)
  show ?case
  proof (cases "3 \<le> length input - i")
    case True
    have i3: "3 * (i div 3) = i" using "1.prems"(1) by auto
    have "3 * (i div 3) + 3 \<le> length input" using True unfolding i3 by simp
    then have k: "i div 3 < (length input + 2) div 3" by (rule ceil3_step)
    then have jlt: "j < output_len"
      unfolding "1.prems"(2,3) base64_encoded_len_def by simp
    have j4: "j + 4 \<le> output_len"
      using k unfolding "1.prems"(2,3) base64_encoded_len_def by simp
    have "i + 3 \<le> length input" using True by simp
    also have "\<dots> \<le> output_len" unfolding "1.prems"(3) by (rule encoded_len_ge)
    finally have i3': "i + 3 \<le> output_len" .
    have fits: "\<not> (INT_MAX < i + 3 \<or> INT_MAX < j + 4)"
      using i3' j4 "1.prems"(4) by simp
    from True obtain a b c r where d: "drop i input = a # b # c # r"
      using list3_ex [of "drop i input"] by auto
    have r: "drop (i + 3) input = r"
    proof -
      have "drop (i + 3) input = drop 3 (drop i input)" by (simp add: add.commute)
      then show ?thesis unfolding d by simp
    qed
    have step: "base64_encode_loop input output_len i j out
                  = base64_encode_loop input output_len (i + 3) (j + 4)
                      (out @ base64_encode_block (drop i input))"
      using True jlt fits by (subst base64_encode_loop.simps) simp
    have ih: "\<exists>i' j' out'.
                base64_encode_loop input output_len (i + 3) (j + 4)
                  (out @ base64_encode_block (drop i input)) = Some (i', j', out') \<and>
                out' @ base64_encode_block_pad (drop i' input) (length input - i')
                  = (out @ base64_encode_block (drop i input)) @ encode_chunks (drop (i + 3) input)"
    proof (rule "1.IH")
      show "3 \<le> length input - i \<and> j < output_len" using True jlt by simp
      show "\<not> (INT_MAX < i + 3 \<or> INT_MAX < j + 4)" by (rule fits)
      show "(i + 3) mod 3 = 0" using "1.prems"(1) by simp
      show "j + 4 = (i + 3) div 3 * 4"
        unfolding "1.prems"(2) mod3_div [OF "1.prems"(1)] by simp
      show "output_len = base64_encoded_len (length input)" by (rule "1.prems"(3))
      show "output_len \<le> INT_MAX" by (rule "1.prems"(4))
    qed
    show ?thesis
      unfolding step using ih unfolding r d
      using encode_block_prefix [of a b c r] by simp
  next
    case False
    then have stop: "base64_encode_loop input output_len i j out = Some (i, j, out)"
      by (subst base64_encode_loop.simps) simp
    have "length (drop i input) < 3" using False by simp
    then have "base64_encode_block_pad (drop i input) (length (drop i input))
                 = encode_chunks (drop i input)"
      by (rule encode_pad_short)
    then show ?thesis unfolding stop by simp
  qed
qed

lemma decode_loop_chunks:
  assumes "(length input - i) mod 4 = 0" "length input \<le> INT_MAX" "j \<le> i"
  shows "base64_decode_loop input i j out = Some (out @ decode_chunks (drop i input))"
  using assms
proof (induction input i j out rule: base64_decode_loop.induct)
  case (1 input i j out)
  show ?case
  proof (cases "i < length input")
    case True
    then have ge: "4 \<le> length input - i" using sub4 [OF "1.prems"(1)] by simp
    then have "4 \<le> length (drop i input)" by simp
    then obtain c0 c1 c2 c3 r where d: "drop i input = c0 # c1 # c2 # c3 # r"
      using list4_ex [of "drop i input"] by auto
    have r: "drop (i + 4) input = r"
    proof -
      have "drop (i + 4) input = drop 4 (drop i input)" by (simp add: add.commute)
      then show ?thesis unfolding d by simp
    qed
    have m: "(length input - (i + 4)) mod 4 = 0" using "1.prems"(1) True by (rule sub4b)
    have fits: "\<not> (INT_MAX < i + 4 \<or> INT_MAX < j + 3)"
      using ge True "1.prems"(2,3) by linarith
    have step: "base64_decode_loop input i j out
                  = base64_decode_loop input (i + 4) (j + 3)
                      (out @ base64_decode_block (drop i input))"
      using True fits by (subst base64_decode_loop.simps) simp
    have "j + 3 \<le> i + 4" using "1.prems"(3) by simp
    then show ?thesis
      unfolding step using "1.IH" [OF True fits m "1.prems"(2)] decode_block_prefix [of c0 c1 c2 c3 r]
      unfolding r d by simp
  next
    case False
    then show ?thesis by (subst base64_decode_loop.simps) simp
  qed
qed

definition pad_len :: "nat \<Rightarrow> nat" where
  "pad_len n = (3 - n mod 3) mod 3"

lemma decode_encode_chunks:
  "decode_chunks (encode_chunks bs) = bs @ replicate (pad_len (length bs)) 0"
proof (induction bs rule: encode_chunks.induct)
  case (1 a b c rest)
  obtain x0 x1 x2 x3 where e: "base64_encode_block [a, b, c] = [x0, x1, x2, x3]"
    by (simp add: base64_encode_block_def Let_def)
  have "base64_decode_block ([x0, x1, x2, x3] @ []) = [a, b, c]"
    using decode_encode_block [of a b c "[]"] unfolding e .
  then show ?case using 1 by (simp add: e pad_len_def)
next
  case (2 a b)
  obtain x0 x1 x2 x3 where e: "base64_encode_block_pad [a, b] 2 = [x0, x1, x2, x3]"
    by (simp add: base64_encode_block_pad_def Let_def)
  have "base64_decode_block ([x0, x1, x2, x3] @ []) = [a, b, 0]"
    using decode_encode_pad2 [of a b "[]"] unfolding e .
  then show ?case by (simp add: e pad_len_def)
next
  case (3 a)
  obtain x0 x1 x2 x3 where e: "base64_encode_block_pad [a] 1 = [x0, x1, x2, x3]"
    by (simp add: base64_encode_block_pad_def Let_def)
  have d: "base64_decode_block ([x0, x1, x2, x3] @ []) = [a, 0, 0]"
    using decode_encode_pad1 [of a "[]"] unfolding e .
  have p: "pad_len (length [a]) = Suc (Suc 0)" by (simp add: pad_len_def)
  have "decode_chunks (encode_chunks [a]) = decode_chunks [x0, x1, x2, x3]"
    by (simp only: encode_chunks.simps e)
  also have "\<dots> = [a, 0, 0]" using d by simp
  finally show ?case using p by simp
next
  case 4
  then show ?case by (simp add: pad_len_def)
qed

lemma length_encode_chunks: "length (encode_chunks bs) = base64_encoded_len (length bs)"
proof (induction bs rule: encode_chunks.induct)
  case (1 a b c rest)
  have "(length rest + 3 + 2) div 3 = (length rest + 2) div 3 + 1" by (rule ceil3_add3)
  moreover have "length (a # b # c # rest) = length rest + 3" by simp
  ultimately show ?case using 1 unfolding base64_encoded_len_def
    by (simp only: encode_chunks.simps length_append length_encode_block) simp
qed (simp_all add: base64_encoded_len_def base64_encode_block_pad_def Let_def)

lemma base64_encode_chunks:
  assumes "base64_encoded_len (length bs) \<le> INT_MAX"
  shows "base64_encode bs (base64_encoded_len (length bs)) = Some (Inr (encode_chunks bs))"
proof -
  have "\<exists>i' j' out'.
          base64_encode_loop bs (base64_encoded_len (length bs)) 0 0 [] = Some (i', j', out') \<and>
          out' @ base64_encode_block_pad (drop i' bs) (length bs - i')
            = [] @ encode_chunks (drop 0 bs)"
    by (rule encode_loop_chunks) (simp_all add: assms)
  then show ?thesis
    by (auto simp add: base64_encode_def)
qed

lemma base64_decode_chunks:
  assumes "bs \<noteq> []" "base64_encoded_len (length bs) \<le> INT_MAX"
  shows "base64_decode (encode_chunks bs) (base64_decoded_len (length (encode_chunks bs)))
           = Some (Inr (bs @ replicate ((3 - length bs mod 3) mod 3) 0))"
proof -
  let ?txt = "encode_chunks bs"
  have len: "length ?txt = ((length bs + 2) div 3) * 4"
    by (simp add: length_encode_chunks base64_encoded_len_def)
  have pos: "0 < length bs" using assms(1) by simp
  have ge4: "\<not> length ?txt < 4" using ceil3_pos [OF pos] unfolding len by simp
  have m4: "length ?txt mod 4 = 0" unfolding len by simp
  have fit: "length ?txt \<le> INT_MAX" using assms(2) by (simp add: length_encode_chunks)
  have loop: "base64_decode_loop ?txt 0 0 [] = Some ([] @ decode_chunks (drop 0 ?txt))"
    by (rule decode_loop_chunks) (simp_all add: m4 fit)
  have "base64_decode ?txt (base64_decoded_len (length ?txt)) = Some (Inr (decode_chunks ?txt))"
    using ge4 m4 by (simp add: base64_decode_def base64_decoded_len_def nat_and_3 loop)
  then show ?thesis by (simp add: decode_encode_chunks pad_len_def)
qed


section \<open>Base64: symbols outside the alphabet\<close>

text \<open>
  C2. The claim: every text with a symbol outside the Base64 alphabet makes
  \<^verbatim>\<open>base64_decode\<close> fail with \<^verbatim>\<open>EINVAL\<close>. The code does not do so: on the four symbols
  \<^verbatim>\<open>A*AA\<close> with a three byte output buffer, \<^verbatim>\<open>from_base_64\<close> returns the number 22
  (\<^verbatim>\<open>EINVAL\<close>) for \<^verbatim>\<open>*\<close>, the block decoder ors \<open>22 << 12\<close> into the 24-bit value, and
  \<^verbatim>\<open>base64_decode\<close> returns 0 with the bytes \<open>01 60 00\<close>.
\<close>

theorem base64_decode_out_of_alphabet_accepted:
  "from_base_64 (char_int CHR ''*'') = errno EINVAL \<and>
   base64_decode ''A*AA'' 3 = Some (Inr [0x01, 0x60, 0x00])"
  by (simp add: base64_decode_def nat_and_3 base64_decode_loop.simps base64_decode_block_def
        from_base_64_def char_int_def INT_MAX_def)

theorem base64_decode_out_of_alphabet_witness:
  "base64_decode ''A*AA'' 3 \<noteq> Some (Inl EINVAL)"
  using base64_decode_out_of_alphabet_accepted by simp

section \<open>Base64: the round trip\<close>

text \<open>
  C7, as amended. The empty byte sequence: \<^verbatim>\<open>base64_encode\<close> succeeds with the empty
  text, and \<^verbatim>\<open>base64_decode\<close> rejects the empty text with \<^verbatim>\<open>EINVAL\<close> (its guard
  \<^verbatim>\<open>input_len < 4\<close>). Every non-empty byte sequence whose Base64 text has at most
  \<^verbatim>\<open>INT_MAX\<close> characters (so that the \<^verbatim>\<open>int\<close> indices of the two loops do not overflow)
  encodes to a text of \<^verbatim>\<open>base64_encoded_len\<close> characters, and the text decodes to the
  original bytes followed by the zero bytes that fill the last group of three: none when
  the length is a multiple of 3, two after a last group of one byte, one after a last
  group of two.
\<close>

theorem base64_roundtrip_padded:
  "base64_encode [] (base64_encoded_len 0) = Some (Inr []) \<and>
   base64_decode [] (base64_decoded_len 0) = Some (Inl EINVAL) \<and>
   base64_roundtrip [] = Some (Inl EINVAL) \<and>
   (bs \<noteq> [] \<and> base64_encoded_len (length bs) \<le> INT_MAX \<longrightarrow>
      (\<exists>txt. base64_encode bs (base64_encoded_len (length bs)) = Some (Inr txt) \<and>
             length txt = base64_encoded_len (length bs) \<and>
             base64_decode txt (base64_decoded_len (length txt))
               = Some (Inr (bs @ replicate ((3 - length bs mod 3) mod 3) 0))) \<and>
      base64_roundtrip bs = Some (Inr (bs @ replicate ((3 - length bs mod 3) mod 3) 0)))"
proof (intro conjI impI)
  show e: "base64_encode [] (base64_encoded_len 0) = Some (Inr [])"
    by (simp add: base64_encode_def base64_encoded_len_def base64_encode_loop.simps
          base64_encode_block_pad_def)
  show d: "base64_decode [] (base64_decoded_len 0) = Some (Inl EINVAL)"
    by (simp add: base64_decode_def)
  show "base64_roundtrip [] = Some (Inl EINVAL)"
    using e d by (simp add: base64_roundtrip_def)
next
  assume a: "bs \<noteq> [] \<and> base64_encoded_len (length bs) \<le> INT_MAX"
  have enc: "base64_encode bs (base64_encoded_len (length bs)) = Some (Inr (encode_chunks bs))"
    using a by (simp add: base64_encode_chunks)
  have dec: "base64_decode (encode_chunks bs) (base64_decoded_len (length (encode_chunks bs)))
               = Some (Inr (bs @ replicate ((3 - length bs mod 3) mod 3) 0))"
    using a by (simp add: base64_decode_chunks)
  show "\<exists>txt. base64_encode bs (base64_encoded_len (length bs)) = Some (Inr txt) \<and>
             length txt = base64_encoded_len (length bs) \<and>
             base64_decode txt (base64_decoded_len (length txt))
               = Some (Inr (bs @ replicate ((3 - length bs mod 3) mod 3) 0))"
    using enc dec length_encode_chunks [of bs] by blast
  show "base64_roundtrip bs = Some (Inr (bs @ replicate ((3 - length bs mod 3) mod 3) 0))"
    using enc dec by (simp add: base64_roundtrip_def)
qed

theorem base64_roundtrip_padded_witness:
  "[0x4D, 0x61] \<noteq> ([] :: u8 list) \<and>
   base64_encoded_len (length [0x4D :: u8, 0x61]) \<le> INT_MAX \<and>
   base64_encode [0x4D, 0x61] (base64_encoded_len 2) = Some (Inr ''TWE='') \<and>
   base64_decode ''TWE='' (base64_decoded_len 4) = Some (Inr [0x4D, 0x61, 0x00]) \<and>
   base64_roundtrip [0x4D, 0x61] = Some (Inr [0x4D, 0x61, 0x00]) \<and>
   base64_roundtrip [0x4D, 0x61, 0x6E] = Some (Inr [0x4D, 0x61, 0x6E])"
proof -
  have b: "base64_encoded_len (length [0x4D :: u8, 0x61]) \<le> INT_MAX"
    "base64_encoded_len (length [0x4D :: u8, 0x61, 0x6E]) \<le> INT_MAX"
    by (simp_all add: base64_encoded_len_def INT_MAX_def)
  have e: "base64_encode [0x4D, 0x61] (base64_encoded_len 2) = Some (Inr ''TWE='')"
    by (simp add: base64_encode_def base64_encoded_len_def base64_encode_loop.simps
          base64_encode_block_pad_def get_base_64_def base64_table_def)
  have n: "base64_encoded_len (length [0x4D :: u8, 0x61]) = base64_encoded_len 2"
    by (simp add: base64_encoded_len_def)
  from base64_roundtrip_padded [of "[0x4D, 0x61]"] b(1)
  obtain s where t: "base64_encode [0x4D, 0x61] (base64_encoded_len (length [0x4D :: u8, 0x61]))
                         = Some (Inr s)"
    "base64_decode s (base64_decoded_len (length s)) = Some (Inr [0x4D, 0x61, 0x00])"
    "base64_roundtrip [0x4D, 0x61] = Some (Inr [0x4D, 0x61, 0x00])"
    by auto
  have "s = ''TWE=''" using t(1) e unfolding n by simp
  then have d: "base64_decode ''TWE='' (base64_decoded_len 4) = Some (Inr [0x4D, 0x61, 0x00])"
    using t(2) by (simp add: base64_decoded_len_def)
  show ?thesis
    using base64_roundtrip_padded [of "[0x4D, 0x61, 0x6E]"] b e d t(3)
    by (simp add: base64_decoded_len_def base64_encoded_len_def)
qed

text \<open>
  C7, as claimed, fails: the one byte \<open>4D\<close> encodes to \<^verbatim>\<open>TQ==\<close>, which decodes to the
  three bytes \<open>4D 00 00\<close>, and the empty sequence does not decode at all.
\<close>

theorem base64_roundtrip_one_byte_counterexample:
  "base64_encode [0x4D] (base64_encoded_len 1) = Some (Inr ''TQ=='') \<and>
   base64_roundtrip [0x4D] = Some (Inr [0x4D, 0x00, 0x00]) \<and>
   base64_roundtrip [0x4D] \<noteq> Some (Inr [0x4D]) \<and>
   base64_roundtrip [] \<noteq> Some (Inr [])"
  by (simp add: base64_roundtrip_def base64_encode_def base64_encoded_len_def
        base64_decoded_len_def base64_encode_loop.simps base64_encode_block_pad_def
        get_base_64_def base64_table_def base64_decode_def nat_and_3 base64_decode_loop.simps
        base64_decode_block_def from_base_64_def char_int_def INT_MAX_def)


section \<open>Byte order\<close>

text \<open>
  The big-endian reading of four and of eight bytes, as a reference for what
  \<^verbatim>\<open>be32toh\<close> and \<^verbatim>\<open>be64toh\<close> give for a field loaded from memory, on either host.
\<close>

definition be_word32 :: "u8 list \<Rightarrow> u32" where
  "be_word32 bs = push_bit 24 (ucast (bs ! 0)) OR push_bit 16 (ucast (bs ! 1))
                    OR push_bit 8 (ucast (bs ! 2)) OR ucast (bs ! 3)"

definition be_word64 :: "u8 list \<Rightarrow> u64" where
  "be_word64 bs = push_bit 56 (ucast (bs ! 0)) OR push_bit 48 (ucast (bs ! 1))
                    OR push_bit 40 (ucast (bs ! 2)) OR push_bit 32 (ucast (bs ! 3))
                    OR push_bit 24 (ucast (bs ! 4)) OR push_bit 16 (ucast (bs ! 5))
                    OR push_bit 8 (ucast (bs ! 6)) OR ucast (bs ! 7)"

lemma le_bytes32_le_word32:
  "le_bytes32 (le_word32 [a, b, c, d]) = [a, b, c, d]"
proof -
  have "ucast (le_word32 [a, b, c, d]) = a"
    unfolding le_word32_def by (rule bit_word_eqI) (auto simp: bit_simps dest: bit_imp_le_length)
  moreover have "ucast (drop_bit 8 (le_word32 [a, b, c, d])) = b"
    unfolding le_word32_def by (rule bit_word_eqI) (auto simp: bit_simps dest: bit_imp_le_length)
  moreover have "ucast (drop_bit 16 (le_word32 [a, b, c, d])) = c"
    unfolding le_word32_def by (rule bit_word_eqI) (auto simp: bit_simps dest: bit_imp_le_length)
  moreover have "ucast (drop_bit 24 (le_word32 [a, b, c, d])) = d"
    unfolding le_word32_def by (rule bit_word_eqI) (auto simp: bit_simps dest: bit_imp_le_length)
  ultimately show ?thesis by (simp add: le_bytes32_def)
qed

lemma le_word32_le_bytes32: "le_word32 (le_bytes32 w) = w"
proof (rule bit_word_eqI)
  fix n
  assume "n < LENGTH(32)"
  then consider "n < 8" | "8 \<le> n \<and> n < 16" | "16 \<le> n \<and> n < 24" | "24 \<le> n \<and> n < 32"
    by fastforce
  then show "bit (le_word32 (le_bytes32 w)) n = bit w n"
  proof cases
    case 1 then show ?thesis unfolding le_word32_def le_bytes32_def by (auto simp add: bit_simps)
  next
    case 2 then show ?thesis unfolding le_word32_def le_bytes32_def by (auto simp add: bit_simps)
  next
    case 3 then show ?thesis unfolding le_word32_def le_bytes32_def by (auto simp add: bit_simps)
  next
    case 4 then show ?thesis unfolding le_word32_def le_bytes32_def by (auto simp add: bit_simps)
  qed
qed

lemma le_bytes64_le_word64:
  "le_bytes64 (le_word64 [a, b, c, d, e, f, g, h]) = [a, b, c, d, e, f, g, h]"
proof -
  have "ucast (le_word64 [a, b, c, d, e, f, g, h]) = a"
    unfolding le_word64_def by (rule bit_word_eqI) (auto simp: bit_simps dest: bit_imp_le_length)
  moreover have "ucast (drop_bit 8 (le_word64 [a, b, c, d, e, f, g, h])) = b"
    unfolding le_word64_def by (rule bit_word_eqI) (auto simp: bit_simps dest: bit_imp_le_length)
  moreover have "ucast (drop_bit 16 (le_word64 [a, b, c, d, e, f, g, h])) = c"
    unfolding le_word64_def by (rule bit_word_eqI) (auto simp: bit_simps dest: bit_imp_le_length)
  moreover have "ucast (drop_bit 24 (le_word64 [a, b, c, d, e, f, g, h])) = d"
    unfolding le_word64_def by (rule bit_word_eqI) (auto simp: bit_simps dest: bit_imp_le_length)
  moreover have "ucast (drop_bit 32 (le_word64 [a, b, c, d, e, f, g, h])) = e"
    unfolding le_word64_def by (rule bit_word_eqI) (auto simp: bit_simps dest: bit_imp_le_length)
  moreover have "ucast (drop_bit 40 (le_word64 [a, b, c, d, e, f, g, h])) = f"
    unfolding le_word64_def by (rule bit_word_eqI) (auto simp: bit_simps dest: bit_imp_le_length)
  moreover have "ucast (drop_bit 48 (le_word64 [a, b, c, d, e, f, g, h])) = g"
    unfolding le_word64_def by (rule bit_word_eqI) (auto simp: bit_simps dest: bit_imp_le_length)
  moreover have "ucast (drop_bit 56 (le_word64 [a, b, c, d, e, f, g, h])) = h"
    unfolding le_word64_def by (rule bit_word_eqI) (auto simp: bit_simps dest: bit_imp_le_length)
  ultimately show ?thesis by (simp add: le_bytes64_def)
qed

lemma le_word64_le_bytes64: "le_word64 (le_bytes64 w) = w"
proof (rule bit_word_eqI)
  fix n
  assume "n < LENGTH(64)"
  then consider "n < 8" | "8 \<le> n \<and> n < 16" | "16 \<le> n \<and> n < 24" | "24 \<le> n \<and> n < 32"
    | "32 \<le> n \<and> n < 40" | "40 \<le> n \<and> n < 48" | "48 \<le> n \<and> n < 56" | "56 \<le> n \<and> n < 64"
    by fastforce
  then show "bit (le_word64 (le_bytes64 w)) n = bit w n"
  proof cases
    case 1 then show ?thesis unfolding le_word64_def le_bytes64_def by (auto simp add: bit_simps)
  next
    case 2 then show ?thesis unfolding le_word64_def le_bytes64_def by (auto simp add: bit_simps)
  next
    case 3 then show ?thesis unfolding le_word64_def le_bytes64_def by (auto simp add: bit_simps)
  next
    case 4 then show ?thesis unfolding le_word64_def le_bytes64_def by (auto simp add: bit_simps)
  next
    case 5 then show ?thesis unfolding le_word64_def le_bytes64_def by (auto simp add: bit_simps)
  next
    case 6 then show ?thesis unfolding le_word64_def le_bytes64_def by (auto simp add: bit_simps)
  next
    case 7 then show ?thesis unfolding le_word64_def le_bytes64_def by (auto simp add: bit_simps)
  next
    case 8 then show ?thesis unfolding le_word64_def le_bytes64_def by (auto simp add: bit_simps)
  qed
qed

lemma be32toh_load32:
  assumes "4 \<le> length bs"
  shows "be32toh ord (load32 ord bs) = be_word32 bs"
proof (cases ord)
  case LittleEndian
  have "le_word32 bs = le_word32 [bs ! 0, bs ! 1, bs ! 2, bs ! 3]"
    by (simp add: le_word32_def)
  then have "bswap32 (le_word32 bs) = le_word32 (rev [bs ! 0, bs ! 1, bs ! 2, bs ! 3])"
    unfolding bswap32_def by (simp only: le_bytes32_le_word32)
  also have "\<dots> = be_word32 bs"
    by (simp add: le_word32_def be_word32_def ac_simps)
  finally show ?thesis using LittleEndian by simp
next
  case BigEndian
  have "take 4 bs = [bs ! 0, bs ! 1, bs ! 2, bs ! 3]"
    using assms by (auto simp: list_eq_iff_nth_eq nth_Cons' numeral_eq_Suc less_Suc_eq)
  then have "le_word32 (rev (take 4 bs)) = be_word32 bs"
    by (simp add: le_word32_def be_word32_def ac_simps)
  then show ?thesis using BigEndian by simp
qed


lemma be64toh_load64:
  assumes "8 \<le> length bs"
  shows "be64toh ord (load64 ord bs) = be_word64 bs"
proof (cases ord)
  case LittleEndian
  have "le_word64 bs = le_word64 [bs ! 0, bs ! 1, bs ! 2, bs ! 3, bs ! 4, bs ! 5, bs ! 6, bs ! 7]"
    by (simp add: le_word64_def)
  then have "bswap64 (le_word64 bs)
               = le_word64 (rev [bs ! 0, bs ! 1, bs ! 2, bs ! 3, bs ! 4, bs ! 5, bs ! 6, bs ! 7])"
    unfolding bswap64_def by (simp only: le_bytes64_le_word64)
  also have "\<dots> = be_word64 bs"
    by (simp add: le_word64_def be_word64_def ac_simps)
  finally show ?thesis using LittleEndian by simp
next
  case BigEndian
  have "take 8 bs = [bs ! 0, bs ! 1, bs ! 2, bs ! 3, bs ! 4, bs ! 5, bs ! 6, bs ! 7]"
    using assms by (auto simp: list_eq_iff_nth_eq nth_Cons' numeral_eq_Suc less_Suc_eq)
  then have "le_word64 (rev (take 8 bs)) = be_word64 bs"
    by (simp add: le_word64_def be_word64_def ac_simps)
  then show ?thesis using BigEndian by simp
qed

section \<open>Decoding: one chunk of counts\<close>

lemma store_counts_spec:
  assumes "store_counts ord arr avail i h ci t = (h', ci', t')"
  shows "counts_len h' = counts_len h \<and> total_count h' = total_count h \<and>
         lowest_trackable_value h' = lowest_trackable_value h \<and>
         highest_trackable_value h' = highest_trackable_value h \<and>
         significant_figures h' = significant_figures h \<and>
         ci' = ci + min (avail - i) (counts_len h - ci) \<and>
         (\<forall>k. k < ci' - ci \<longrightarrow>
            counts h' (ci + k) = be64toh ord (load64 ord (bytes_at arr (8 * (i + k)) 8))) \<and>
         (\<forall>j. j < ci \<or> ci' \<le> j \<longrightarrow> counts h' j = counts h j)"
  using assms
proof (induction ord arr avail i h ci t arbitrary: h' ci' t' rule: store_counts.induct)
  case (1 ord arr avail i h ci t)
  show ?case
  proof (cases "i < avail \<and> ci < counts_len h")
    case False
    then have "store_counts ord arr avail i h ci t = (h, ci, t)"
      by (subst store_counts.simps) auto
    with "1.prems" have e: "h' = h" "ci' = ci" "t' = t" by simp_all
    from False have "min (avail - i) (counts_len h - ci) = 0" by auto
    then show ?thesis unfolding e by simp
  next
    case True
    define v where "v = be64toh ord (load64 ord (bytes_at arr (8 * i) 8))"
    define h1 where "h1 = h\<lparr>counts := (counts h)(ci := v)\<rparr>"
    have step: "store_counts ord arr avail i h ci t
                  = store_counts ord arr avail (i + 1) h1 (ci + 1) (t + counts h1 ci)"
      using True by (subst store_counts.simps) (simp add: Let_def v_def h1_def)
    have rec: "store_counts ord arr avail (i + 1) h1 (ci + 1) (t + counts h1 ci) = (h', ci', t')"
      using "1.prems" unfolding step .
    have ih: "counts_len h' = counts_len h1 \<and> total_count h' = total_count h1 \<and>
         lowest_trackable_value h' = lowest_trackable_value h1 \<and>
         highest_trackable_value h' = highest_trackable_value h1 \<and>
         significant_figures h' = significant_figures h1 \<and>
         ci' = (ci + 1) + min (avail - (i + 1)) (counts_len h1 - (ci + 1)) \<and>
         (\<forall>k. k < ci' - (ci + 1) \<longrightarrow>
            counts h' ((ci + 1) + k) = be64toh ord (load64 ord (bytes_at arr (8 * ((i + 1) + k)) 8))) \<and>
         (\<forall>j. j < ci + 1 \<or> ci' \<le> j \<longrightarrow> counts h' j = counts h1 j)"
      by (rule "1.IH" [OF True v_def h1_def rec])
    have f1: "counts_len h1 = counts_len h" "total_count h1 = total_count h"
      "lowest_trackable_value h1 = lowest_trackable_value h"
      "highest_trackable_value h1 = highest_trackable_value h"
      "significant_figures h1 = significant_figures h"
      by (simp_all add: h1_def)
    have ci': "ci' = ci + min (avail - i) (counts_len h - ci)"
      using ih True unfolding f1 by auto
    have vals: "counts h' (ci + k) = be64toh ord (load64 ord (bytes_at arr (8 * (i + k)) 8))"
      if "k < ci' - ci" for k
    proof (cases k)
      case 0
      have "counts h' ci = counts h1 ci" using ih by simp
      also have "\<dots> = v" by (simp add: h1_def)
      finally show ?thesis unfolding 0 v_def by simp
    next
      case (Suc m)
      have "m < ci' - (ci + 1)" using that Suc by simp
      then have "counts h' ((ci + 1) + m) = be64toh ord (load64 ord (bytes_at arr (8 * ((i + 1) + m)) 8))"
        using ih by blast
      then show ?thesis unfolding Suc by simp
    qed
    have frame: "counts h' j = counts h j" if "j < ci \<or> ci' \<le> j" for j
    proof -
      have "ci < ci'" using ci' True by simp
      then have "j \<noteq> ci" using that by auto
      have "j < ci + 1 \<or> ci' \<le> j" using that by auto
      then have "counts h' j = counts h1 j" using ih by blast
      also have "\<dots> = counts h j" using \<open>j \<noteq> ci\<close> by (simp add: h1_def)
      finally show ?thesis .
    qed
    show ?thesis
      using ih ci' vals frame unfolding f1 by simp
  qed
qed


lemma store_counts_frame:
  assumes "store_counts ord arr avail i h ci t = (h', ci', t')"
  shows "counts_len h' = counts_len h \<and> total_count h' = total_count h \<and>
         lowest_trackable_value h' = lowest_trackable_value h \<and>
         highest_trackable_value h' = highest_trackable_value h \<and>
         significant_figures h' = significant_figures h \<and>
         (\<forall>j. counts_len h \<le> j \<longrightarrow> counts h' j = counts h j)"
proof -
  note s = store_counts_spec [OF assms]
  have "counts h' j = counts h j" if "counts_len h \<le> j" for j
  proof -
    have "j < ci \<or> ci' \<le> j"
    proof (cases "ci \<le> counts_len h")
      case True
      then have "ci' \<le> counts_len h" using s by auto
      then show ?thesis using that by simp
    next
      case False
      then have "ci' = ci" using s by auto
      then show ?thesis by auto
    qed
    then show ?thesis using s by blast
  qed
  then show ?thesis using s by simp
qed

definition same_shape :: "hdr_histogram \<Rightarrow> hdr_histogram \<Rightarrow> bool" where
  "same_shape h h' \<longleftrightarrow>
     counts_len h' = counts_len h \<and> total_count h' = total_count h \<and>
     lowest_trackable_value h' = lowest_trackable_value h \<and>
     highest_trackable_value h' = highest_trackable_value h \<and>
     significant_figures h' = significant_figures h \<and>
     (\<forall>j. counts_len h \<le> j \<longrightarrow> counts h' j = counts h j)"

lemma same_shape_refl: "same_shape h h"
  by (simp add: same_shape_def)

lemma same_shape_trans: "same_shape a b \<Longrightarrow> same_shape b c \<Longrightarrow> same_shape a c"
  by (simp add: same_shape_def)

lemma decode_counts_loop_shape:
  assumes "decode_counts_loop env strm arr h ci t = Some y"
  shows "same_shape h (snd y)"
proof (rule decode_counts_loop.raw_induct
         [where P = "\<lambda>env strm arr h ci t y. same_shape h (snd y)", OF _ assms], goal_cases)
  case (1 loop env strm arr h ci t y)
  note IH = "1"(1) and body = "1"(2)
  obtain r strm' written where c: "zlib_call (inflate env) (strm\<lparr>avail_out := 512 * 8\<rparr>) Z_SYNC_FLUSH = (r, strm', written)"
    by (cases "zlib_call (inflate env) (strm\<lparr>avail_out := 512 * 8\<rparr>) Z_SYNC_FLUSH") auto
  show ?case
  proof (cases "Z_STREAM_END \<noteq> r \<and> Z_OK \<noteq> r")
    case True
    then have "y = (Failure HDR_INFLATE_FAIL, h)" using body c by auto
    then show ?thesis by (simp add: same_shape_refl)
  next
    case False
    obtain h1 ci1 t1 where sc: "store_counts (byte_order env) (overlay written arr)
        (512 - avail_out strm' div 8) 0 h ci t = (h1, ci1, t1)"
      by (cases "store_counts (byte_order env) (overlay written arr)
        (512 - avail_out strm' div 8) 0 h ci t") auto
    have sh: "same_shape h h1"
      using store_counts_frame [OF sc] by (simp add: same_shape_def)
    show ?thesis
    proof (cases "r = Z_OK")
      case True
      then have "loop env strm' (overlay written arr) h1 ci1 t1 = Some y"
        using body c sc False by (auto simp: Let_def)
      then have "same_shape h1 (snd y)" by (rule IH)
      with sh show ?thesis by (rule same_shape_trans)
    next
      case r: False
      then have "y = (Success, h1)" using body c sc False by (auto simp: Let_def)
      then show ?thesis using sh by simp
    qed
  qed
qed


section \<open>Decoding: a whole run of the counts loop\<close>

text \<open>
  What zlib does during the counts loop, as a list of chunks: \<open>inflate_run env strm ws\<close>
  says that the calls of \<^verbatim>\<open>inflate\<close> the loop makes from the stream \<open>strm\<close> write the
  chunks \<open>ws\<close>, one a call, that every call but the last returns \<^verbatim>\<open>Z_OK\<close> and that the
  last returns \<^verbatim>\<open>Z_STREAM_END\<close>. The values a round produces are the
  \<^verbatim>\<open>available_counts\<close> 64-bit words of \<^verbatim>\<open>counts_array\<close> after the chunk was written into
  it, read big-endian (\<open>chunk_values\<close>); \<open>run_values\<close> are the values of all rounds in
  order. A chunk whose length is not a multiple of 8 ends in a word that is part new
  bytes and part what the array held before.
\<close>

fun inflate_run :: "('d, 'i) env \<Rightarrow> 'i z_stream \<Rightarrow> u8 list list \<Rightarrow> bool" where
  "inflate_run env strm [] = False"
| "inflate_run env strm (w # ws) =
     (case zlib_call (inflate env) (strm\<lparr>avail_out := 512 * 8\<rparr>) Z_SYNC_FLUSH of
        (r, strm', written) \<Rightarrow>
          written = w \<and> (if ws = [] then r = Z_STREAM_END else r = Z_OK \<and> inflate_run env strm' ws))"

definition chunk_values :: "(nat \<Rightarrow> u8) \<Rightarrow> u8 list \<Rightarrow> u64 list" where
  "chunk_values counts_array w =
     map (\<lambda>i. be_word64 (bytes_at (overlay w counts_array) (8 * i) 8))
       [0 ..< 512 - (512 * 8 - length w) div 8]"

fun run_values :: "(nat \<Rightarrow> u8) \<Rightarrow> u8 list list \<Rightarrow> u64 list" where
  "run_values counts_array [] = []"
| "run_values counts_array (w # ws) =
     chunk_values counts_array w @ run_values (overlay w counts_array) ws"

lemma zlib_call_avail_out:
  assumes "zlib_call f strm flush = (r, strm', written)"
  shows "avail_out strm' = avail_out strm - length written"
  using assms by (auto simp: zlib_call_def Let_def split: prod.splits)

lemma length_chunk_values: "length (chunk_values arr w) = 512 - (512 * 8 - length w) div 8"
  by (simp add: chunk_values_def)

lemma nth_chunk_values:
  "k < 512 - (512 * 8 - length w) div 8 \<Longrightarrow>
   chunk_values arr w ! k = be_word64 (bytes_at (overlay w arr) (8 * k) 8)"
  by (simp add: chunk_values_def)

lemma zlib_codes: "Z_OK \<noteq> Z_STREAM_END" "Z_STREAM_END \<noteq> Z_OK"
  by (simp_all add: Z_OK_def Z_STREAM_END_def)

lemma decode_counts_loop_run:
  assumes "inflate_run env strm ws"
  shows "\<exists>h'. decode_counts_loop env strm arr h ci t = Some (Success, h') \<and>
              same_shape h h' \<and>
              (\<forall>k. k < min (length (run_values arr ws)) (counts_len h - ci) \<longrightarrow>
                   counts h' (ci + k) = run_values arr ws ! k) \<and>
              (\<forall>j. j < ci \<or> ci + min (length (run_values arr ws)) (counts_len h - ci) \<le> j \<longrightarrow>
                   counts h' j = counts h j)"
  using assms
proof (induction ws arbitrary: strm arr h ci t)
  case Nil
  then show ?case by simp
next
  case (Cons w ws)
  obtain r strm' written where
    zc: "zlib_call (inflate env) (strm\<lparr>avail_out := 4096\<rparr>) Z_SYNC_FLUSH = (r, strm', written)"
    by (cases "zlib_call (inflate env) (strm\<lparr>avail_out := 4096\<rparr>) Z_SYNC_FLUSH") auto
  have w: "written = w" and alt: "if ws = [] then r = Z_STREAM_END else r = Z_OK \<and> inflate_run env strm' ws"
    using Cons.prems zc by simp_all
  define a where "a = 512 - (4096 - length w) div 8"
  have av: "512 - avail_out strm' div 8 = a"
    using zlib_call_avail_out [OF zc] unfolding a_def w by simp
  define cv where "cv = chunk_values arr w"
  have lcv: "length cv = a" unfolding cv_def a_def by (simp add: length_chunk_values)
  obtain h1 ci1 t1 where
    sc: "store_counts (byte_order env) (overlay w arr) a 0 h ci t = (h1, ci1, t1)"
    by (cases "store_counts (byte_order env) (overlay w arr) a 0 h ci t") auto
  note s = store_counts_spec [OF sc]
  define n1 where "n1 = min a (counts_len h - ci)"
  have ci1: "ci1 = ci + n1" using s unfolding n1_def by simp
  have sh: "same_shape h h1" using store_counts_frame [OF sc] by (simp add: same_shape_def)
  have cl1: "counts_len h1 = counts_len h" using s by simp
  have new: "counts h1 (ci + k) = cv ! k" if "k < n1" for k
  proof -
    have ka: "k < a" using that unfolding n1_def by simp
    have "counts h1 (ci + k) = be64toh (byte_order env) (load64 (byte_order env)
             (bytes_at (overlay w arr) (8 * (0 + k)) 8))"
      using s that ci1 by simp
    also have "\<dots> = be_word64 (bytes_at (overlay w arr) (8 * k) 8)"
      using be64toh_load64 [of "bytes_at (overlay w arr) (8 * k) 8" "byte_order env"]
      by (simp add: bytes_at_def)
    also have "\<dots> = cv ! k"
      unfolding cv_def using ka unfolding a_def by (simp add: nth_chunk_values)
    finally show ?thesis .
  qed
  have old: "counts h1 j = counts h j" if "j < ci \<or> ci1 \<le> j" for j
    using s that by blast
  show ?case
  proof (cases "ws = []")
    case True
    then have r: "r = Z_STREAM_END" using alt by simp
    have l: "decode_counts_loop env strm arr h ci t = Some (Success, h1)"
      by (subst decode_counts_loop.simps) (simp add: zc w av sc r Let_def zlib_codes)
    have rv: "run_values arr (w # ws) = cv" unfolding True cv_def by simp
    show ?thesis
      unfolding rv lcv n1_def [symmetric]
      using l sh new old ci1 by auto
  next
    case False
    then have r: "r = Z_OK" and run: "inflate_run env strm' ws" using alt by simp_all
    from Cons.IH [OF run, of "overlay w arr" h1 ci1 t1]
    obtain h' where
      l': "decode_counts_loop env strm' (overlay w arr) h1 ci1 t1 = Some (Success, h')" and
      sh': "same_shape h1 h'" and
      new': "\<forall>k. k < min (length (run_values (overlay w arr) ws)) (counts_len h1 - ci1) \<longrightarrow>
                 counts h' (ci1 + k) = run_values (overlay w arr) ws ! k" and
      old': "\<forall>j. j < ci1 \<or> ci1 + min (length (run_values (overlay w arr) ws)) (counts_len h1 - ci1) \<le> j \<longrightarrow>
                 counts h' j = counts h1 j"
      by blast
    define rv where "rv = run_values (overlay w arr) ws"
    define n2 where "n2 = min (length rv) (counts_len h - ci1)"
    define n where "n = min (length (cv @ rv)) (counts_len h - ci)"
    have vals: "run_values arr (w # ws) = cv @ rv" unfolding cv_def rv_def by simp
    have nn: "n = n1 + n2"
      unfolding n_def n1_def n2_def ci1 n1_def lcv [symmetric] by auto
    have l: "decode_counts_loop env strm arr h ci t = Some (Success, h')"
      by (subst decode_counts_loop.simps) (simp add: zc w av sc r Let_def zlib_codes l')
    have "same_shape h h'" using sh sh' by (rule same_shape_trans)
    moreover have "counts h' (ci + k) = (cv @ rv) ! k" if "k < n" for k
    proof (cases "k < n1")
      case True
      then have "ci + k < ci1" unfolding ci1 by simp
      then have "counts h' (ci + k) = counts h1 (ci + k)" using old' by blast
      also have "\<dots> = cv ! k" using True by (rule new)
      also have "\<dots> = (cv @ rv) ! k" using True lcv unfolding n1_def by (simp add: nth_append)
      finally show ?thesis .
    next
      case False
      then have n1a: "n1 = a" using that unfolding nn n1_def n2_def ci1 n1_def by auto
      have k2: "k - a < n2" using that False unfolding nn n1a by simp
      then have "counts h' (ci1 + (k - a)) = rv ! (k - a)"
        using new' unfolding rv_def n2_def cl1 by blast
      moreover have "ci1 + (k - a) = ci + k" using False unfolding ci1 n1a by simp
      moreover have "(cv @ rv) ! k = rv ! (k - a)" using False lcv unfolding n1a by (simp add: nth_append)
      ultimately show ?thesis by simp
    qed
    moreover have "counts h' j = counts h j" if "j < ci \<or> ci + n \<le> j" for j
    proof -
      have "j < ci1 \<or> ci1 + n2 \<le> j" using that unfolding nn ci1 by auto
      then have "counts h' j = counts h1 j"
        using old' unfolding rv_def n2_def cl1 by blast
      moreover have "j < ci \<or> ci1 \<le> j" using that unfolding nn ci1 by auto
      ultimately show ?thesis using old by simp
    qed
    ultimately show ?thesis
      unfolding vals n_def [symmetric] using l by blast
  qed
qed


section \<open>Decoding: the two cookies\<close>

text \<open>
  The first call of \<^verbatim>\<open>inflate\<close> that \<^verbatim>\<open>hdr_decode_compressed\<close> makes, and the 32 bytes of
  \<^verbatim>\<open>encoding_flyweight\<close> after it.
\<close>

definition inflate_header ::
  "('d, 'i) env \<Rightarrow> u8 list \<Rightarrow> int \<times> 'i z_stream \<times> u8 list" where
  "inflate_header env buffer =
     zlib_call (inflate env)
       \<lparr>next_in = take (unat (be32toh (byte_order env) (load32 (byte_order env) (drop 4 buffer))))
                    (drop 8 buffer),
        avail_out = 32, total_out = 0, state = snd (inflateInit env)\<rparr> Z_SYNC_FLUSH"

definition decoded_header :: "('d, 'i) env \<Rightarrow> u8 list \<Rightarrow> u8 list" where
  "decoded_header env buffer =
     bytes_at (overlay (snd (snd (inflate_header env buffer))) (stack env)) 0 32"

lemma bytes_at_sub:
  "off + n \<le> m \<Longrightarrow> bytes_at mem off n = take n (drop off (bytes_at mem 0 m))"
  by (auto simp: bytes_at_def list_eq_iff_nth_eq)

lemma length_bytes_at [simp]: "length (bytes_at mem off n) = n"
  by (simp add: bytes_at_def)

lemma load32_take: "load32 ord (take 4 bs) = load32 ord bs"
  by (cases ord) (simp_all add: le_word32_def)

lemma load64_take: "load64 ord (take 8 bs) = load64 ord bs"
  by (cases ord) (simp_all add: le_word64_def)

lemma header_cookie:
  "be32toh (byte_order env) (load32 (byte_order env)
      (bytes_at (overlay (snd (snd (inflate_header env buffer))) (stack env)) 0 4))
     = be_word32 (decoded_header env buffer)"
proof -
  have "bytes_at (overlay (snd (snd (inflate_header env buffer))) (stack env)) 0 4
          = take 4 (decoded_header env buffer)"
    unfolding decoded_header_def using bytes_at_sub [of 0 4 32] by simp
  then show ?thesis
    by (simp add: load32_take be32toh_load32 decoded_header_def)
qed

lemma header_total_count:
  "be64toh (byte_order env) (load64 (byte_order env)
      (bytes_at (overlay (snd (snd (inflate_header env buffer))) (stack env)) 24 8))
     = be_word64 (drop 24 (decoded_header env buffer))"
proof -
  have "bytes_at (overlay (snd (snd (inflate_header env buffer))) (stack env)) 24 8
          = take 8 (drop 24 (decoded_header env buffer))"
    unfolding decoded_header_def using bytes_at_sub [of 24 8 32] by simp
  then show ?thesis
    by (simp add: load64_take be64toh_load64 decoded_header_def)
qed



section \<open>A concrete environment\<close>

text \<open>
  For runs on concrete inputs: a little codec that stores the bytes as they are (deflate
  takes all its input, hands out as much as fits and keeps the rest \<open>pending\<close>, and
  remembers what it has \<open>sent\<close>; inflate hands the input back), a constructor that always makes two
  buckets, allocations that succeed, \<open>AA\<close> in every byte of uninitialised memory, and a
  null pointer where \<^verbatim>\<open>h\<close> lies before it is set.
\<close>

record stored_state =
  sent :: "u8 list"
  pending :: "u8 list"

definition stored_deflate :: "stored_state zlib_call" where
  "stored_deflate z input avail flush =
     (let queue = pending z @ input;
          out = take avail queue
      in (if flush = Z_FINISH \<and> length queue \<le> avail then Z_STREAM_END else Z_OK,
          \<lparr>sent = sent z @ out, pending = drop avail queue\<rparr>, length input, out))"

definition stored_inflate :: "unit zlib_call" where
  "stored_inflate z input avail flush =
     (if length input \<le> avail then Z_STREAM_END else Z_OK, z,
      min avail (length input), take avail input)"

definition two_buckets :: "u64 \<Rightarrow> u64 \<Rightarrow> u32 \<Rightarrow> hdr_histogram option" where
  "two_buckets lowest highest figures =
     Some \<lparr>lowest_trackable_value = lowest, highest_trackable_value = highest,
           significant_figures = figures, total_count = 0, counts_len = 2,
           counts = (\<lambda>i. 0)\<rparr>"

definition stored_env :: "endian \<Rightarrow> (stored_state, unit) env" where
  "stored_env ord =
     \<lparr>byte_order = ord, alloc_ok = (\<lambda>n. True), stack = (\<lambda>i. 0xAA), heap = (\<lambda>i. 0xAA),
      uninit_h = 0, hdr_init = two_buckets,
      deflateInit = (\<lambda>level. (Z_OK, \<lparr>sent = [], pending = []\<rparr>)), deflate = stored_deflate,
      inflateInit = (Z_OK, ()), inflate = stored_inflate\<rparr>"



lemma COMPRESSION_COOKIE_value: "COMPRESSION_COOKIE = 0x1c849389"
  by (simp add: COMPRESSION_COOKIE_def)

lemma ENCODING_COOKIE_value: "ENCODING_COOKIE = 0x1c849388"
  by (simp add: ENCODING_COOKIE_def)












section \<open>Decoding: the total count and the tally\<close>

lemma store_counts_tally:
  "(case store_counts ord arr avail i h ci t of (h', ci', t') \<Rightarrow> (h', ci'))
     = (case store_counts ord arr avail i h ci u of (h', ci', u') \<Rightarrow> (h', ci'))"
proof (induction ord arr avail i h ci t arbitrary: u rule: store_counts.induct)
  case (1 ord arr avail i h ci t)
  show ?case
  proof (cases "i < avail \<and> ci < counts_len h")
    case False
    then show ?thesis
      by (subst store_counts.simps, subst (2) store_counts.simps) auto
  next
    case True
    define v where "v = be64toh ord (load64 ord (bytes_at arr (8 * i) 8))"
    define h1 where "h1 = h\<lparr>counts := (counts h)(ci := v)\<rparr>"
    have s: "store_counts ord arr avail i h ci w
               = store_counts ord arr avail (i + 1) h1 (ci + 1) (w + counts h1 ci)" for w
      using True by (subst store_counts.simps) (simp add: Let_def v_def h1_def)
    show ?thesis
      unfolding s by (rule "1.IH" [OF True v_def h1_def])
  qed
qed

lemma decode_counts_loop_tally_all:
  assumes "decode_counts_loop env strm arr h ci t = Some y"
  shows "\<forall>u. decode_counts_loop env strm arr h ci u = Some y"
proof (rule decode_counts_loop.raw_induct
         [where P = "\<lambda>env strm arr h ci t y. \<forall>u. decode_counts_loop env strm arr h ci u = Some y",
          OF _ assms], goal_cases)
  case (1 loop env strm arr h ci t y)
  note IH = "1"(1) and body = "1"(2)
  obtain r strm' written where c: "zlib_call (inflate env) (strm\<lparr>avail_out := 512 * 8\<rparr>) Z_SYNC_FLUSH = (r, strm', written)"
    by (cases "zlib_call (inflate env) (strm\<lparr>avail_out := 512 * 8\<rparr>) Z_SYNC_FLUSH") auto
  show ?case
  proof
    fix u
    show "decode_counts_loop env strm arr h ci u = Some y"
    proof (cases "Z_STREAM_END \<noteq> r \<and> Z_OK \<noteq> r")
      case True
      then have "y = (Failure HDR_INFLATE_FAIL, h)" using body c by auto
      then show ?thesis using True c by (subst decode_counts_loop.simps) auto
    next
      case False
      obtain h1 ci1 t1 where sc: "store_counts (byte_order env) (overlay written arr)
          (512 - avail_out strm' div 8) 0 h ci t = (h1, ci1, t1)"
        by (cases "store_counts (byte_order env) (overlay written arr)
          (512 - avail_out strm' div 8) 0 h ci t") auto
      obtain h2 ci2 u1 where su: "store_counts (byte_order env) (overlay written arr)
          (512 - avail_out strm' div 8) 0 h ci u = (h2, ci2, u1)"
        by (cases "store_counts (byte_order env) (overlay written arr)
          (512 - avail_out strm' div 8) 0 h ci u") auto
      have e: "h2 = h1" "ci2 = ci1"
        using store_counts_tally [of "byte_order env" "overlay written arr"
                "512 - avail_out strm' div 8" 0 h ci t u]
        unfolding sc su by simp_all
      show ?thesis
      proof (cases "r = Z_OK")
        case True
        then have "loop env strm' (overlay written arr) h1 ci1 t1 = Some y"
          using body c sc False by (auto simp: Let_def)
        then have "\<forall>u. decode_counts_loop env strm' (overlay written arr) h1 ci1 u = Some y"
          by (rule IH)
        then have "decode_counts_loop env strm' (overlay written arr) h1 ci1 u1 = Some y" by blast
        then show ?thesis
          using True c su e by (subst decode_counts_loop.simps) (auto simp: Let_def)
      next
        case r: False
        then have "y = (Success, h1)" using body c sc False by (auto simp: Let_def)
        then show ?thesis
          using r False c su e by (subst decode_counts_loop.simps) (auto simp: Let_def)
      qed
    qed
  qed
qed

lemma decode_counts_loop_tally_imp:
  assumes "decode_counts_loop env strm arr h ci t = Some y"
  shows "decode_counts_loop env strm arr h ci u = Some y"
  using decode_counts_loop_tally_all [OF assms] by blast

lemma decode_counts_loop_tally:
  "decode_counts_loop env strm arr h ci t = decode_counts_loop env strm arr h ci u"
proof (cases "decode_counts_loop env strm arr h ci t")
  case None
  show ?thesis
  proof (cases "decode_counts_loop env strm arr h ci u")
    case n: None
    then show ?thesis using None by simp
  next
    case (Some y)
    then have "decode_counts_loop env strm arr h ci t = Some y"
      by (rule decode_counts_loop_tally_imp)
    then show ?thesis using None by simp
  qed
next
  case (Some y)
  then have "decode_counts_loop env strm arr h ci u = Some y"
    by (rule decode_counts_loop_tally_imp)
  then show ?thesis using Some by simp
qed

lemma hdr_decode_compressed_success:
  assumes "hdr_decode_compressed env buffer len histogram = Some (Success, Some h')"
  shows "\<exists>h0 strm1 written.
           inflate_header env buffer = (Z_OK, strm1, written) \<and>
           hdr_init env
             (be64toh (byte_order env) (load64 (byte_order env)
                (bytes_at (overlay written (stack env)) 8 8)))
             (be64toh (byte_order env) (load64 (byte_order env)
                (bytes_at (overlay written (stack env)) 16 8)))
             (be32toh (byte_order env) (load32 (byte_order env)
                (bytes_at (overlay written (stack env)) 4 4))) = Some h0 \<and>
           decode_counts_loop env strm1 (stack env)
             (h0\<lparr>total_count := be64toh (byte_order env) (load64 (byte_order env)
                (bytes_at (overlay written (stack env)) 24 8))\<rparr>) 0 0 = Some (Success, h')"
proof -
  obtain r0 z where i: "inflateInit env = (r0, z)" by (cases "inflateInit env") auto
  obtain r1 strm1 written where h: "inflate_header env buffer = (r1, strm1, written)"
    by (cases "inflate_header env buffer") auto
  have h': "zlib_call (inflate env)
       \<lparr>next_in = take (unat (be32toh (byte_order env) (load32 (byte_order env) (drop 4 buffer))))
                    (drop 8 buffer),
        avail_out = 32, total_out = 0, state = z\<rparr> Z_SYNC_FLUSH = (r1, strm1, written)"
    using h unfolding inflate_header_def i by simp
  show ?thesis
    using assms unfolding h
    by (auto simp: hdr_decode_compressed_def cleanup_uninitialised_def i h' Let_def
             split: if_splits option.splits result.splits)
qed

lemma header_lowest:
  "be64toh (byte_order env) (load64 (byte_order env)
      (bytes_at (overlay (snd (snd (inflate_header env buffer))) (stack env)) 8 8))
     = be_word64 (drop 8 (decoded_header env buffer))"
proof -
  have "bytes_at (overlay (snd (snd (inflate_header env buffer))) (stack env)) 8 8
          = take 8 (drop 8 (decoded_header env buffer))"
    unfolding decoded_header_def using bytes_at_sub [of 8 8 32] by simp
  then show ?thesis
    by (simp add: load64_take be64toh_load64 decoded_header_def)
qed

lemma header_highest:
  "be64toh (byte_order env) (load64 (byte_order env)
      (bytes_at (overlay (snd (snd (inflate_header env buffer))) (stack env)) 16 8))
     = be_word64 (drop 16 (decoded_header env buffer))"
proof -
  have "bytes_at (overlay (snd (snd (inflate_header env buffer))) (stack env)) 16 8
          = take 8 (drop 16 (decoded_header env buffer))"
    unfolding decoded_header_def using bytes_at_sub [of 16 8 32] by simp
  then show ?thesis
    by (simp add: load64_take be64toh_load64 decoded_header_def)
qed

lemma header_figures:
  "be32toh (byte_order env) (load32 (byte_order env)
      (bytes_at (overlay (snd (snd (inflate_header env buffer))) (stack env)) 4 4))
     = be_word32 (drop 4 (decoded_header env buffer))"
proof -
  have "bytes_at (overlay (snd (snd (inflate_header env buffer))) (stack env)) 4 4
          = take 4 (drop 4 (decoded_header env buffer))"
    unfolding decoded_header_def using bytes_at_sub [of 4 4 32] by simp
  then show ?thesis
    by (simp add: load32_take be32toh_load32 decoded_header_def)
qed

lemma hdr_decode_compressed_well_formed:
  assumes len: "8 \<le> len" "len \<le> length buffer"
    and outer: "be_word32 buffer = COMPRESSION_COOKIE"
    and init: "fst (inflateInit env) = Z_OK"
    and first: "fst (inflate_header env buffer) = Z_OK"
    and inner: "be_word32 (decoded_header env buffer) = ENCODING_COOKIE"
    and cons: "hdr_init env (be_word64 (drop 8 (decoded_header env buffer)))
                 (be_word64 (drop 16 (decoded_header env buffer)))
                 (be_word32 (drop 4 (decoded_header env buffer))) = Some h0"
    and run: "inflate_run env (fst (snd (inflate_header env buffer))) ws"
  shows "\<exists>h3. hdr_decode_compressed env buffer len None = Some (Success, Some h3) \<and>
              total_count h3 = be_word64 (drop 24 (decoded_header env buffer)) \<and>
              counts_len h3 = counts_len h0 \<and>
              (\<forall>k. k < min (length (run_values (stack env) ws)) (counts_len h0) \<longrightarrow>
                   counts h3 k = run_values (stack env) ws ! k)"
proof -
  have c: "be32toh (byte_order env) (load32 (byte_order env) buffer) = be_word32 buffer"
    using len by (intro be32toh_load32) simp
  have l8: "\<not> len < 8" using len by simp
  obtain z where i: "inflateInit env = (Z_OK, z)" using init by (cases "inflateInit env") auto
  obtain strm1 written where h: "inflate_header env buffer = (Z_OK, strm1, written)"
    using first by (cases "inflate_header env buffer") auto
  have h': "zlib_call (inflate env)
       \<lparr>next_in = take (unat (be32toh (byte_order env) (load32 (byte_order env) (drop 4 buffer))))
                    (drop 8 buffer),
        avail_out = 32, total_out = 0, state = z\<rparr> Z_SYNC_FLUSH = (Z_OK, strm1, written)"
    using h unfolding inflate_header_def i by simp
  define tc where "tc = be_word64 (drop 24 (decoded_header env buffer))"
  have k: "be32toh (byte_order env) (load32 (byte_order env)
             (bytes_at (overlay written (stack env)) 0 4)) = ENCODING_COOKIE"
    using header_cookie [of env buffer] inner unfolding h by simp
  have lo: "be64toh (byte_order env) (load64 (byte_order env)
             (bytes_at (overlay written (stack env)) 8 8))
            = be_word64 (drop 8 (decoded_header env buffer))"
    using header_lowest [of env buffer] unfolding h by simp
  have hi: "be64toh (byte_order env) (load64 (byte_order env)
             (bytes_at (overlay written (stack env)) 16 8))
            = be_word64 (drop 16 (decoded_header env buffer))"
    using header_highest [of env buffer] unfolding h by simp
  have fg: "be32toh (byte_order env) (load32 (byte_order env)
             (bytes_at (overlay written (stack env)) 4 4))
            = be_word32 (drop 4 (decoded_header env buffer))"
    using header_figures [of env buffer] unfolding h by simp
  have t: "be64toh (byte_order env) (load64 (byte_order env)
             (bytes_at (overlay written (stack env)) 24 8)) = tc"
    using header_total_count [of env buffer] unfolding h tc_def by simp
  have run1: "inflate_run env strm1 ws" using run unfolding h by simp
  from decode_counts_loop_run [OF run1, of "stack env" "h0\<lparr>total_count := tc\<rparr>" 0 0]
  obtain h3 where
    l: "decode_counts_loop env strm1 (stack env) (h0\<lparr>total_count := tc\<rparr>) 0 0 = Some (Success, h3)" and
    sh: "same_shape (h0\<lparr>total_count := tc\<rparr>) h3" and
    v: "\<forall>k. k < min (length (run_values (stack env) ws)) (counts_len (h0\<lparr>total_count := tc\<rparr>) - 0) \<longrightarrow>
             counts h3 (0 + k) = run_values (stack env) ws ! k"
    by blast
  have d: "hdr_decode_compressed env buffer len None = Some (Success, Some h3)"
    using l8 outer
    by (simp add: hdr_decode_compressed_def c i h' Let_def k lo hi fg t cons l)
  have "total_count h3 = tc" "counts_len h3 = counts_len h0"
    using sh by (simp_all add: same_shape_def)
  then show ?thesis using d v unfolding tc_def by auto
qed

text \<open>
  C10. The running tally of the decoded counts is never used: the counts loop returns the
  same whatever tally it is started with. Whenever \<^verbatim>\<open>hdr_decode_compressed\<close> succeeds,
  the \<open>total_count\<close> of the histogram it returns is the big-endian value of bytes 24 to 31
  of the decompressed header. And it does succeed on every well-formed envelope, whatever
  the header's \<open>total_count\<close> and whatever the counts: when the buffer holds the 8 bytes of
  the envelope header, the slot is empty, the outer cookie is right, zlib starts, its
  first call returns \<^verbatim>\<open>Z_OK\<close>, the decompressed header has the encoding cookie, the
  constructor returns a histogram and the calls of the counts loop end with
  \<^verbatim>\<open>Z_STREAM_END\<close>, the function returns success with a histogram whose \<open>total_count\<close> is
  the header's value and whose counts are the values the rounds produced, as many as
  \<open>counts_len\<close> allows. No hypothesis relates the two.
\<close>

theorem hdr_decode_compressed_total_count_unchecked:
  "decode_counts_loop env strm arr h ci t = decode_counts_loop env strm arr h ci u \<and>
   (hdr_decode_compressed env buffer len histogram = Some (Success, Some h') \<longrightarrow>
      total_count h' = be_word64 (drop 24 (decoded_header env buffer))) \<and>
   (8 \<le> len \<and> len \<le> length buffer \<and> be_word32 buffer = COMPRESSION_COOKIE \<and>
    fst (inflateInit env) = Z_OK \<and> fst (inflate_header env buffer) = Z_OK \<and>
    be_word32 (decoded_header env buffer) = ENCODING_COOKIE \<and>
    hdr_init env (be_word64 (drop 8 (decoded_header env buffer)))
      (be_word64 (drop 16 (decoded_header env buffer)))
      (be_word32 (drop 4 (decoded_header env buffer))) = Some h0 \<and>
    inflate_run env (fst (snd (inflate_header env buffer))) ws \<longrightarrow>
      (\<exists>h3. hdr_decode_compressed env buffer len None = Some (Success, Some h3) \<and>
            total_count h3 = be_word64 (drop 24 (decoded_header env buffer)) \<and>
            counts_len h3 = counts_len h0 \<and>
            (\<forall>k. k < min (length (run_values (stack env) ws)) (counts_len h0) \<longrightarrow>
                 counts h3 k = run_values (stack env) ws ! k)))"
proof (intro conjI impI)
  show "decode_counts_loop env strm arr h ci t = decode_counts_loop env strm arr h ci u"
    by (rule decode_counts_loop_tally)
next
  assume "hdr_decode_compressed env buffer len histogram = Some (Success, Some h')"
  then obtain h0 strm1 written where
    ih: "inflate_header env buffer = (Z_OK, strm1, written)" and
    loop: "decode_counts_loop env strm1 (stack env)
             (h0\<lparr>total_count := be64toh (byte_order env) (load64 (byte_order env)
                (bytes_at (overlay written (stack env)) 24 8))\<rparr>) 0 0 = Some (Success, h')"
    using hdr_decode_compressed_success by blast
  have "total_count h' = be64toh (byte_order env) (load64 (byte_order env)
                (bytes_at (overlay written (stack env)) 24 8))"
    using decode_counts_loop_shape [OF loop] by (simp add: same_shape_def)
  also have "\<dots> = be_word64 (drop 24 (decoded_header env buffer))"
    using header_total_count [of env buffer] unfolding ih by simp
  finally show "total_count h' = be_word64 (drop 24 (decoded_header env buffer))" .
next
  assume a: "8 \<le> len \<and> len \<le> length buffer \<and> be_word32 buffer = COMPRESSION_COOKIE \<and>
    fst (inflateInit env) = Z_OK \<and> fst (inflate_header env buffer) = Z_OK \<and>
    be_word32 (decoded_header env buffer) = ENCODING_COOKIE \<and>
    hdr_init env (be_word64 (drop 8 (decoded_header env buffer)))
      (be_word64 (drop 16 (decoded_header env buffer)))
      (be_word32 (drop 4 (decoded_header env buffer))) = Some h0 \<and>
    inflate_run env (fst (snd (inflate_header env buffer))) ws"
  show "\<exists>h3. hdr_decode_compressed env buffer len None = Some (Success, Some h3) \<and>
            total_count h3 = be_word64 (drop 24 (decoded_header env buffer)) \<and>
            counts_len h3 = counts_len h0 \<and>
            (\<forall>k. k < min (length (run_values (stack env) ws)) (counts_len h0) \<longrightarrow>
                 counts h3 k = run_values (stack env) ws ! k)"
    by (rule hdr_decode_compressed_well_formed) (use a in simp_all)
qed

section \<open>Decoding: the counts phase\<close>

text \<open>
  C8. One chunk: \<^verbatim>\<open>store_counts\<close>, started at \<open>i = 0\<close>, stores the first
  \<open>min avail (counts_len - ci)\<close> values of the chunk, each read big-endian, at the indices
  from \<open>ci\<close> on, and leaves every other index as it was. The whole loop: whenever it
  returns, \<open>counts_len\<close> is unchanged and so is all memory from index \<open>counts_len\<close> on. When
  zlib reports the end of the stream in the first round, the loop returns success with
  what \<^verbatim>\<open>store_counts\<close> stored. And for every run of zlib that ends, in any number of
  rounds: the loop returns success, the values the rounds produced are stored in order at
  the indices from \<open>ci\<close> on, as many of them as fit below \<open>counts_len\<close>, the values
  beyond are dropped, and every other index is as it was.
\<close>

theorem decode_counts_phase:
  "(store_counts ord arr avail 0 h ci t = (h1, ci1, t1) \<longrightarrow>
      counts_len h1 = counts_len h \<and>
      ci1 = ci + min avail (counts_len h - ci) \<and>
      (\<forall>k. k < ci1 - ci \<longrightarrow> counts h1 (ci + k) = be_word64 (bytes_at arr (8 * k) 8)) \<and>
      (\<forall>j. j < ci \<or> ci1 \<le> j \<longrightarrow> counts h1 j = counts h j)) \<and>
   (decode_counts_loop env strm arr h ci t = Some (r, h2) \<longrightarrow>
      counts_len h2 = counts_len h \<and>
      (\<forall>j. counts_len h \<le> j \<longrightarrow> counts h2 j = counts h j)) \<and>
   (zlib_call (inflate env) (strm\<lparr>avail_out := 512 * 8\<rparr>) Z_SYNC_FLUSH
        = (Z_STREAM_END, strm', written) \<longrightarrow>
      decode_counts_loop env strm arr h ci t
        = Some (Success,
                fst (store_counts (byte_order env) (overlay written arr)
                       (512 - avail_out strm' div 8) 0 h ci t))) \<and>
   (inflate_run env strm ws \<longrightarrow>
      (\<exists>h3. decode_counts_loop env strm arr h ci t = Some (Success, h3) \<and>
            counts_len h3 = counts_len h \<and>
            (\<forall>k. k < min (length (run_values arr ws)) (counts_len h - ci) \<longrightarrow>
                 counts h3 (ci + k) = run_values arr ws ! k) \<and>
            (\<forall>j. j < ci \<or> ci + min (length (run_values arr ws)) (counts_len h - ci) \<le> j \<longrightarrow>
                 counts h3 j = counts h j)))"
proof (intro conjI impI)
  assume a: "store_counts ord arr avail 0 h ci t = (h1, ci1, t1)"
  note s = store_counts_spec [OF a]
  show "counts_len h1 = counts_len h" using s by simp
  show "ci1 = ci + min avail (counts_len h - ci)" using s by simp
  show "\<forall>k. k < ci1 - ci \<longrightarrow> counts h1 (ci + k) = be_word64 (bytes_at arr (8 * k) 8)"
    using s by (simp add: be64toh_load64)
  show "\<forall>j. j < ci \<or> ci1 \<le> j \<longrightarrow> counts h1 j = counts h j" using s by simp
next
  assume "decode_counts_loop env strm arr h ci t = Some (r, h2)"
  then have s: "same_shape h (snd (r, h2))" by (rule decode_counts_loop_shape)
  show "counts_len h2 = counts_len h" using s by (simp add: same_shape_def)
  show "\<forall>j. counts_len h \<le> j \<longrightarrow> counts h2 j = counts h j" using s by (simp add: same_shape_def)
next
  assume "zlib_call (inflate env) (strm\<lparr>avail_out := 512 * 8\<rparr>) Z_SYNC_FLUSH
        = (Z_STREAM_END, strm', written)"
  then show "decode_counts_loop env strm arr h ci t
        = Some (Success,
                fst (store_counts (byte_order env) (overlay written arr)
                       (512 - avail_out strm' div 8) 0 h ci t))"
    by (subst decode_counts_loop.simps)
       (simp add: Let_def Z_OK_def Z_STREAM_END_def split: prod.splits)
next
  assume "inflate_run env strm ws"
  from decode_counts_loop_run [OF this, of arr h ci t]
  show "\<exists>h3. decode_counts_loop env strm arr h ci t = Some (Success, h3) \<and>
            counts_len h3 = counts_len h \<and>
            (\<forall>k. k < min (length (run_values arr ws)) (counts_len h - ci) \<longrightarrow>
                 counts h3 (ci + k) = run_values arr ws ! k) \<and>
            (\<forall>j. j < ci \<or> ci + min (length (run_values arr ws)) (counts_len h - ci) \<le> j \<longrightarrow>
                 counts h3 j = counts h j)"
    by (auto simp: same_shape_def)
qed

section \<open>A concrete envelope\<close>

text \<open>
  An envelope whose header says \<open>total_count = 5\<close> and whose payload holds the three counts
  1, 2 and 7, decoded into a histogram of two buckets.
\<close>

definition good :: "u8 list" where
  "good = [0x1c, 0x84, 0x93, 0x89, 0, 0, 0, 56,
           0x1c, 0x84, 0x93, 0x88, 0, 0, 0, 3,
           0, 0, 0, 0, 0, 0, 0, 1,
           0, 0, 0, 0, 0, 0, 0, 100,
           0, 0, 0, 0, 0, 0, 0, 5,
           0, 0, 0, 0, 0, 0, 0, 1,
           0, 0, 0, 0, 0, 0, 0, 2,
           0, 0, 0, 0, 0, 0, 0, 7]"

definition good_histogram :: hdr_histogram where
  "good_histogram =
     \<lparr>lowest_trackable_value = 1, highest_trackable_value = 100, significant_figures = 3,
      total_count = 5, counts_len = 2, counts = (\<lambda>i. 0)(0 := 1, 1 := 2)\<rparr>"

lemma good_length: "bswap32 (le_word32 (drop 4 good)) = 56"
  by (simp add: good_def bswap32_def le_word32_def le_bytes32_def)

lemma good_header:
  "inflate_header (stored_env LittleEndian) good
     = (Z_OK,
        \<lparr>next_in = [0, 0, 0, 0, 0, 0, 0, 1, 0, 0, 0, 0, 0, 0, 0, 2, 0, 0, 0, 0, 0, 0, 0, 7],
         avail_out = 0, total_out = 32, state = ()\<rparr>,
        [0x1c, 0x84, 0x93, 0x88, 0, 0, 0, 3, 0, 0, 0, 0, 0, 0, 0, 1,
         0, 0, 0, 0, 0, 0, 0, 100, 0, 0, 0, 0, 0, 0, 0, 5])"
proof -
  have "inflate_header (stored_env LittleEndian) good
          = zlib_call stored_inflate
              \<lparr>next_in = take 56 (drop 8 good), avail_out = 32, total_out = 0, state = ()\<rparr>
              Z_SYNC_FLUSH"
    by (simp add: inflate_header_def stored_env_def good_length)
  then show ?thesis
    by (simp add: zlib_call_def stored_inflate_def good_def Z_OK_def Z_STREAM_END_def)
qed

lemma good_counts_call:
  "zlib_call (inflate (stored_env LittleEndian))
     \<lparr>next_in = [0, 0, 0, 0, 0, 0, 0, 1, 0, 0, 0, 0, 0, 0, 0, 2, 0, 0, 0, 0, 0, 0, 0, 7],
      avail_out = 4096, total_out = 32, state = ()\<rparr> Z_SYNC_FLUSH
     = (Z_STREAM_END, \<lparr>next_in = [], avail_out = 4072, total_out = 56, state = ()\<rparr>,
        [0, 0, 0, 0, 0, 0, 0, 1, 0, 0, 0, 0, 0, 0, 0, 2, 0, 0, 0, 0, 0, 0, 0, 7])"
  by (simp add: zlib_call_def stored_env_def stored_inflate_def)


lemma upt_0_8: "[0..<8] = [0, 1, 2, 3, 4, 5, 6, 7::nat]"
  by code_simp

lemma upt_0_4: "[0..<4] = [0, 1, 2, 3::nat]"
  by code_simp

lemma upt_0_32:
  "[0..<32] = [0, 1, 2, 3, 4, 5, 6, 7, 8, 9, 10, 11, 12, 13, 14, 15, 16, 17, 18, 19, 20, 21,
               22, 23, 24, 25, 26, 27, 28, 29, 30, 31::nat]"
  by code_simp

lemma bytes_at_8:
  "bytes_at mem off 8 = [mem off, mem (off + 1), mem (off + 2), mem (off + 3), mem (off + 4),
                         mem (off + 5), mem (off + 6), mem (off + 7)]"
proof -
  have "[off..<off + 8] = map (\<lambda>k. k + off) [0..<8]"
    by (simp add: map_add_upt add.commute)
  then show ?thesis by (simp add: bytes_at_def upt_0_8 add.commute)
qed

lemma bytes_at_4:
  "bytes_at mem off 4 = [mem off, mem (off + 1), mem (off + 2), mem (off + 3)]"
proof -
  have "[off..<off + 4] = map (\<lambda>k. k + off) [0..<4]"
    by (simp add: map_add_upt add.commute)
  then show ?thesis by (simp add: bytes_at_def upt_0_4 add.commute)
qed

lemma bswap64_le_word64: "8 \<le> length bs \<Longrightarrow> bswap64 (le_word64 bs) = be_word64 bs"
  using be64toh_load64 [of bs LittleEndian] by simp

lemma bswap32_le_word32: "4 \<le> length bs \<Longrightarrow> bswap32 (le_word32 bs) = be_word32 bs"
  using be32toh_load32 [of bs LittleEndian] by simp

lemma good_store:
  assumes "counts_len h = 2"
  shows "store_counts LittleEndian
           (overlay [0, 0, 0, 0, 0, 0, 0, 1, 0, 0, 0, 0, 0, 0, 0, 2, 0, 0, 0, 0, 0, 0, 0, 7] mem)
           3 0 h 0 0
         = (h\<lparr>counts := (counts h)(0 := 1, 1 := 2)\<rparr>, 2, 3)"
  using assms
  by (simp add: store_counts.simps Let_def bytes_at_8 overlay_def bswap64_le_word64 be_word64_def)

lemma good_loop:
  assumes "counts_len h = 2"
  shows "decode_counts_loop (stored_env LittleEndian)
           \<lparr>next_in = [0, 0, 0, 0, 0, 0, 0, 1, 0, 0, 0, 0, 0, 0, 0, 2, 0, 0, 0, 0, 0, 0, 0, 7],
            avail_out = 0, total_out = 32, state = ()\<rparr> mem h 0 0
         = Some (Success, h\<lparr>counts := (counts h)(0 := 1, 1 := 2)\<rparr>)"
proof -
  have b: "byte_order (stored_env LittleEndian) = LittleEndian" by (simp add: stored_env_def)
  show ?thesis
    by (subst decode_counts_loop.simps)
       (simp add: good_counts_call Let_def b good_store [OF assms] Z_OK_def Z_STREAM_END_def)
qed


lemma good_decode:
  "hdr_decode_compressed (stored_env LittleEndian) good 64 None = Some (Success, Some good_histogram)"
proof -
  have c: "bswap32 (le_word32 good) = COMPRESSION_COOKIE"
    by (simp add: bswap32_le_word32 good_def be_word32_def COMPRESSION_COOKIE_value)
  have h: "zlib_call stored_inflate
              \<lparr>next_in = take 56 (drop 8 good), avail_out = 32, total_out = 0, state = ()\<rparr>
              Z_SYNC_FLUSH
     = (Z_OK,
        \<lparr>next_in = [0, 0, 0, 0, 0, 0, 0, 1, 0, 0, 0, 0, 0, 0, 0, 2, 0, 0, 0, 0, 0, 0, 0, 7],
         avail_out = 0, total_out = 32, state = ()\<rparr>,
        [0x1c, 0x84, 0x93, 0x88, 0, 0, 0, 3, 0, 0, 0, 0, 0, 0, 0, 1,
         0, 0, 0, 0, 0, 0, 0, 100, 0, 0, 0, 0, 0, 0, 0, 5])"
    by (simp add: zlib_call_def stored_inflate_def good_def Z_OK_def Z_STREAM_END_def)
  have l: "decode_counts_loop (stored_env LittleEndian)
           \<lparr>next_in = [0, 0, 0, 0, 0, 0, 0, 1, 0, 0, 0, 0, 0, 0, 0, 2, 0, 0, 0, 0, 0, 0, 0, 7],
            avail_out = 0, total_out = 32, state = ()\<rparr> (\<lambda>i. 0xAA)
           \<lparr>lowest_trackable_value = 1, highest_trackable_value = 100, significant_figures = 3,
            total_count = 5, counts_len = 2, counts = (\<lambda>i. 0)\<rparr> 0 0
         = Some (Success, good_histogram)"
    by (subst good_loop) (simp_all add: good_histogram_def)
  have e: "env.byte_order (stored_env LittleEndian) = LittleEndian"
     "inflateInit (stored_env LittleEndian) = (Z_OK, ())"
     "inflate (stored_env LittleEndian) = stored_inflate"
     "stack (stored_env LittleEndian) = (\<lambda>i. 0xAA)"
     "hdr_init (stored_env LittleEndian) = two_buckets"
    by (simp_all add: stored_env_def)
  show ?thesis
    unfolding hdr_decode_compressed_def e
    by (simp add: c good_length h Let_def bytes_at_8 bytes_at_4 overlay_def bswap64_le_word64
          bswap32_le_word32 be_word64_def be_word32_def ENCODING_COOKIE_value two_buckets_def l)
qed


definition good_counts :: "nat \<Rightarrow> u8" where
  "good_counts =
     overlay [0, 0, 0, 0, 0, 0, 0, 1, 0, 0, 0, 0, 0, 0, 0, 2, 0, 0, 0, 0, 0, 0, 0, 7] (\<lambda>i. 0xAA)"

definition good_stream :: "unit z_stream" where
  "good_stream =
     \<lparr>next_in = [0, 0, 0, 0, 0, 0, 0, 1, 0, 0, 0, 0, 0, 0, 0, 2, 0, 0, 0, 0, 0, 0, 0, 7],
      avail_out = 0, total_out = 32, state = ()\<rparr>"

lemma good_decoded_header:
  "decoded_header (stored_env LittleEndian) good
     = [0x1c, 0x84, 0x93, 0x88, 0, 0, 0, 3, 0, 0, 0, 0, 0, 0, 0, 1,
        0, 0, 0, 0, 0, 0, 0, 100, 0, 0, 0, 0, 0, 0, 0, 5]"
  unfolding decoded_header_def good_header
  by (simp add: bytes_at_def upt_0_32 overlay_def)

lemma good_run:
  "inflate_run (stored_env LittleEndian) good_stream
     [[0, 0, 0, 0, 0, 0, 0, 1, 0, 0, 0, 0, 0, 0, 0, 2, 0, 0, 0, 0, 0, 0, 0, 7]]"
  using good_counts_call by (simp add: good_stream_def)

lemma upt_0_3: "[0..<3] = [0, 1, 2 :: nat]"
  by code_simp

lemma good_values:
  "run_values (\<lambda>i. 0xAA)
     [[0, 0, 0, 0, 0, 0, 0, 1, 0, 0, 0, 0, 0, 0, 0, 2, 0, 0, 0, 0, 0, 0, 0, 7]] = [1, 2, 7]"
  by (simp add: chunk_values_def upt_0_3 bytes_at_8 overlay_def be_word64_def)

text \<open>
  C10 on the concrete envelope: the header says \<open>total_count = 5\<close>, the counts stored are 1
  and 2, and decoding succeeds. The envelope is well formed in the sense of the theorem.
\<close>

theorem hdr_decode_compressed_total_count_unchecked_witness:
  "hdr_decode_compressed (stored_env LittleEndian) good 64 None
     = Some (Success, Some good_histogram) \<and>
   total_count good_histogram = be_word64 (drop 24 (decoded_header (stored_env LittleEndian) good)) \<and>
   total_count good_histogram = 5 \<and>
   counts good_histogram 0 + counts good_histogram 1 = 3 \<and>
   be_word32 good = COMPRESSION_COOKIE \<and>
   fst (inflate_header (stored_env LittleEndian) good) = Z_OK \<and>
   be_word32 (decoded_header (stored_env LittleEndian) good) = ENCODING_COOKIE \<and>
   inflate_run (stored_env LittleEndian) (fst (snd (inflate_header (stored_env LittleEndian) good)))
     [[0, 0, 0, 0, 0, 0, 0, 1, 0, 0, 0, 0, 0, 0, 0, 2, 0, 0, 0, 0, 0, 0, 0, 7]] \<and>
   (\<exists>h3. hdr_decode_compressed (stored_env LittleEndian) good 64 None = Some (Success, Some h3) \<and>
         total_count h3 = 5 \<and> counts_len h3 = 2 \<and> counts h3 0 = 1 \<and> counts h3 1 = 2)"
proof -
  let ?env = "stored_env LittleEndian"
  let ?ws = "[[0, 0, 0, 0, 0, 0, 0, 1, 0, 0, 0, 0, 0, 0, 0, 2, 0, 0, 0, 0, 0, 0, 0, 7 :: u8]]"
  note inst = hdr_decode_compressed_total_count_unchecked
            [where env = ?env and strm = undefined and arr = undefined and h = undefined
               and ci = 0 and t = 0 and u = 0 and buffer = good and len = 64
               and histogram = None and h' = good_histogram and ws = ?ws
               and ?h0.0 = "\<lparr>lowest_trackable_value = 1, highest_trackable_value = 100,
                              significant_figures = 3, total_count = 0, counts_len = 2,
                              counts = (\<lambda>i. 0)\<rparr>"]
  have tc: "total_count good_histogram
          = be_word64 (drop 24 (decoded_header ?env good))"
    using inst good_decode by blast
  have 1: "be_word32 good = COMPRESSION_COOKIE"
    by (simp add: good_def be_word32_def COMPRESSION_COOKIE_value)
  have 2: "fst (inflateInit ?env) = Z_OK" by (simp add: stored_env_def)
  have 3: "fst (inflate_header ?env good) = Z_OK" by (simp add: good_header)
  have 4: "be_word32 (decoded_header ?env good) = ENCODING_COOKIE"
    unfolding good_decoded_header by (simp add: be_word32_def ENCODING_COOKIE_value)
  have 5: "hdr_init ?env (be_word64 (drop 8 (decoded_header ?env good)))
             (be_word64 (drop 16 (decoded_header ?env good)))
             (be_word32 (drop 4 (decoded_header ?env good)))
           = Some \<lparr>lowest_trackable_value = 1, highest_trackable_value = 100,
                   significant_figures = 3, total_count = 0, counts_len = 2,
                   counts = (\<lambda>i. 0)\<rparr>"
    unfolding good_decoded_header
    by (simp add: stored_env_def two_buckets_def be_word64_def be_word32_def)
  have 6: "inflate_run ?env (fst (snd (inflate_header ?env good))) ?ws"
    using good_run by (simp add: good_header good_stream_def)
  have 7: "8 \<le> (64 :: nat) \<and> 64 \<le> length good" by (simp add: good_def)
  have s: "stack ?env = (\<lambda>i. 0xAA)" by (simp add: stored_env_def)
  from inst [unfolded s good_values] 1 2 3 4 5 6 7 obtain h3 where
    r: "hdr_decode_compressed ?env good 64 None = Some (Success, Some h3)"
       "total_count h3 = be_word64 (drop 24 (decoded_header ?env good))"
       "counts_len h3 = 2"
       "\<forall>k. k < min (length [1, 2, 7 :: u64]) 2 \<longrightarrow> counts h3 k = [1, 2, 7] ! k"
    by auto
  have t5: "be_word64 (drop 24 (decoded_header ?env good)) = 5"
    unfolding good_decoded_header by (simp add: be_word64_def)
  have c0: "counts h3 0 = 1" using r(4) [rule_format, of 0] by simp
  have c1: "counts h3 1 = 2" using r(4) [rule_format, of 1] by simp
  have "\<exists>h3. hdr_decode_compressed ?env good 64 None = Some (Success, Some h3) \<and>
         total_count h3 = 5 \<and> counts_len h3 = 2 \<and> counts h3 0 = 1 \<and> counts h3 1 = 2"
    using r(1,2,3) t5 c0 c1 by auto
  then show ?thesis
    using tc good_decode 1 3 4 6 by (simp add: good_histogram_def)
qed

text \<open>
  A zlib that hands out eight bytes a call, for a run of the counts loop in three rounds.
\<close>

definition trickle_inflate :: "unit zlib_call" where
  "trickle_inflate z input avail flush =
     (let n = min 8 avail
      in (if length input \<le> n then Z_STREAM_END else Z_OK, z, min n (length input), take n input))"

definition trickle_env :: "(stored_state, unit) env" where
  "trickle_env = (stored_env LittleEndian)\<lparr>inflate := trickle_inflate\<rparr>"

lemma trickle_run:
  "inflate_run trickle_env good_stream
     [[0, 0, 0, 0, 0, 0, 0, 1], [0, 0, 0, 0, 0, 0, 0, 2], [0, 0, 0, 0, 0, 0, 0, 7]]"
  by (simp add: trickle_env_def good_stream_def zlib_call_def trickle_inflate_def Let_def
        Z_OK_def Z_STREAM_END_def)

lemma upt_0_1: "[0..<1] = [0::nat]"
  by code_simp

lemma trickle_values:
  "run_values (\<lambda>i. 0xAA)
     [[0, 0, 0, 0, 0, 0, 0, 1], [0, 0, 0, 0, 0, 0, 0, 2], [0, 0, 0, 0, 0, 0, 0, 7]] = [1, 2, 7]"
  by (simp add: chunk_values_def upt_0_1 bytes_at_8 overlay_def be_word64_def)

text \<open>
  C8 on the concrete envelope: the values 1 and 2 are stored at indices 0 and 1, the third
  value 7 is dropped at \<open>counts_len = 2\<close>, and the loop succeeds, in one round with the
  codec that stores and in three rounds with the one that trickles.
\<close>

theorem decode_counts_phase_witness:
  "store_counts LittleEndian good_counts 3 0 (good_histogram\<lparr>counts := (\<lambda>i. 0)\<rparr>) 0 0
     = (good_histogram, 2, 3) \<and>
   counts_len good_histogram = 2 \<and>
   counts good_histogram 0 = be_word64 (bytes_at good_counts 0 8) \<and>
   counts good_histogram 1 = be_word64 (bytes_at good_counts 8 8) \<and>
   be_word64 (bytes_at good_counts 16 8) = 7 \<and>
   counts good_histogram 2 = 0 \<and>
   decode_counts_loop (stored_env LittleEndian) good_stream (\<lambda>i. 0xAA)
       (good_histogram\<lparr>counts := (\<lambda>i. 0)\<rparr>) 0 0
     = Some (Success, good_histogram) \<and>
   inflate_run trickle_env good_stream
     [[0, 0, 0, 0, 0, 0, 0, 1], [0, 0, 0, 0, 0, 0, 0, 2], [0, 0, 0, 0, 0, 0, 0, 7]] \<and>
   (\<exists>h3. decode_counts_loop trickle_env good_stream (\<lambda>i. 0xAA)
            (good_histogram\<lparr>counts := (\<lambda>i. 0)\<rparr>) 0 0 = Some (Success, h3) \<and>
         counts_len h3 = 2 \<and> counts h3 0 = 1 \<and> counts h3 1 = 2 \<and> counts h3 2 = 0)"
proof -
  let ?h0 = "good_histogram\<lparr>counts := (\<lambda>i. 0)\<rparr>"
  let ?ws = "[[0, 0, 0, 0, 0, 0, 0, 1], [0, 0, 0, 0, 0, 0, 0, 2], [0, 0, 0, 0, 0, 0, 0, 7 :: u8]]"
  have len: "counts_len ?h0 = 2" by (simp add: good_histogram_def)
  have s: "store_counts LittleEndian good_counts 3 0 ?h0 0 0 = (good_histogram, 2, 3)"
    unfolding good_counts_def by (subst good_store [OF len]) (simp add: good_histogram_def)
  have z: "zlib_call (inflate (stored_env LittleEndian)) (good_stream\<lparr>avail_out := 512 * 8\<rparr>)
             Z_SYNC_FLUSH
           = (Z_STREAM_END, \<lparr>next_in = [], avail_out = 4072, total_out = 56, state = ()\<rparr>,
              [0, 0, 0, 0, 0, 0, 0, 1, 0, 0, 0, 0, 0, 0, 0, 2, 0, 0, 0, 0, 0, 0, 0, 7])"
    using good_counts_call by (simp add: good_stream_def)
  note t1 = decode_counts_phase
             [where ord = LittleEndian and arr = good_counts and avail = 3 and h = ?h0
                and ci = 0 and t = 0 and ?h1.0 = good_histogram and ?ci1.0 = 2 and ?t1.0 = 3]
  note t = decode_counts_phase
             [where env = "stored_env LittleEndian" and strm = good_stream
                and arr = "\<lambda>i. 0xAA" and h = ?h0 and ci = 0 and t = 0
                and strm' = "\<lparr>next_in = [], avail_out = 4072, total_out = 56, state = ()\<rparr>"
                and written = "[0, 0, 0, 0, 0, 0, 0, 1, 0, 0, 0, 0, 0, 0, 0, 2, 0, 0, 0, 0, 0, 0, 0, 7]"]
  note t3 = decode_counts_phase
             [where env = trickle_env and strm = good_stream
                and arr = "\<lambda>i. 0xAA" and h = ?h0 and ci = 0 and t = 0 and ws = ?ws]
  have v: "\<forall>k. k < 2 - 0 \<longrightarrow> counts good_histogram (0 + k) = be_word64 (bytes_at good_counts (8 * k) 8)"
    using t1 s by blast
  have v0: "counts good_histogram 0 = be_word64 (bytes_at good_counts 0 8)"
    using v [rule_format, of 0] by simp
  have v1: "counts good_histogram 1 = be_word64 (bytes_at good_counts 8 8)"
    using v [rule_format, of 1] by simp
  have l: "decode_counts_loop (stored_env LittleEndian) good_stream (\<lambda>i. 0xAA) ?h0 0 0
             = Some (Success, fst (store_counts (byte_order (stored_env LittleEndian))
                 (overlay [0, 0, 0, 0, 0, 0, 0, 1, 0, 0, 0, 0, 0, 0, 0, 2, 0, 0, 0, 0, 0, 0, 0, 7]
                    (\<lambda>i. 0xAA))
                 (512 - avail_out \<lparr>next_in = [], avail_out = 4072, total_out = 56, state = ()\<rparr> div 8)
                 0 ?h0 0 0))"
    using t z by blast
  have l': "decode_counts_loop (stored_env LittleEndian) good_stream (\<lambda>i. 0xAA) ?h0 0 0
             = Some (Success, good_histogram)"
    using l s by (simp add: stored_env_def good_counts_def)
  have x: "be_word64 (bytes_at good_counts 16 8) = 7"
    by (simp add: good_counts_def bytes_at_8 overlay_def be_word64_def)
  from t3 [unfolded trickle_values] trickle_run obtain h3 where
    r3: "decode_counts_loop trickle_env good_stream (\<lambda>i. 0xAA) ?h0 0 0 = Some (Success, h3)"
      "counts_len h3 = counts_len ?h0"
      "\<forall>k. k < min (length [1, 2, 7 :: u64]) (counts_len ?h0 - 0) \<longrightarrow>
           counts h3 (0 + k) = [1, 2, 7] ! k"
      "\<forall>j. j < 0 \<or> 0 + min (length [1, 2, 7 :: u64]) (counts_len ?h0 - 0) \<le> j \<longrightarrow>
           counts h3 j = counts ?h0 j"
    by blast
  have c0: "counts h3 0 = 1" using r3(3) [rule_format, of 0] by (simp add: len)
  have c1: "counts h3 1 = 2" using r3(3) [rule_format, of 1] by (simp add: len)
  have c2: "counts h3 2 = 0" using r3(4) [rule_format, of 2] by (simp add: len)
  have "\<exists>h3. decode_counts_loop trickle_env good_stream (\<lambda>i. 0xAA) ?h0 0 0 = Some (Success, h3) \<and>
         counts_len h3 = 2 \<and> counts h3 0 = 1 \<and> counts h3 1 = 2 \<and> counts h3 2 = 0"
    using r3(1,2) c0 c1 c2 len by auto
  then show ?thesis
    using s v0 v1 l' x trickle_run by (simp add: good_histogram_def)
qed


section \<open>The log header of the claim\<close>

definition version_line :: string where
  "version_line = ''#[Histogram log format version 1.2]''"

definition start_time_line :: string where
  "start_time_line = ''#[StartTime: 1441812279.139000 ...]''"

definition claimed_header :: string where
  "claimed_header = version_line @ [CHR 0x0A] @ start_time_line @ [CHR 0x0A]"

lemma line_prefix_line:
  "CHR 0x0A \<notin> set l \<Longrightarrow> line_prefix (l @ CHR 0x0A # rest) = l @ [CHR 0x0A]"
  by (induction l) auto

lemma fgets_line:
  assumes "CHR 0x0A \<notin> set l" and "length l + 1 < n"
  shows "fgets n (l @ CHR 0x0A # rest) = Some (l @ [CHR 0x0A], rest)"
  using assms by (simp add: fgets_def line_prefix_line)

lemma version_line_scan:
  "is_comment (version_line @ [CHR 0x0A])"
  "scan_start_time ord (version_line @ [CHR 0x0A])
     (scan_log_format (version_line @ [CHR 0x0A])
        \<lparr>major_version = 0, minor_version = 0, start_time_ms = 0\<rparr>)
   = \<lparr>major_version = 1, minor_version = 2, start_time_ms = 0\<rparr>"
  by (simp_all add: is_comment_def starts_with_def c_str_def isspace_def version_line_def
        scan_start_time_def scan_log_format_def sscanf_def scan_int_def is_digit_def
        digit_value_def)

lemma start_time_line_scan:
  "is_comment (start_time_line @ [CHR 0x0A])"
  "scan_start_time LittleEndian (start_time_line @ [CHR 0x0A])
     (scan_log_format (start_time_line @ [CHR 0x0A])
        \<lparr>major_version = 1, minor_version = 2, start_time_ms = 0\<rparr>)
   = \<lparr>major_version = 1, minor_version = 2, start_time_ms = 1441812418000\<rparr>"
  by (simp_all add: is_comment_def starts_with_def c_str_def isspace_def start_time_line_def
        scan_start_time_def scan_log_format_def sscanf_def scan_int_def is_digit_def
        digit_value_def int_in_int64_def le_word64_def le_bytes32_def Let_def)


lemma parse_loop_version_line:
  "parse_log_comments_loop ord (version_line @ CHR 0x0A # rest)
     \<lparr>major_version = 0, minor_version = 0, start_time_ms = 0\<rparr>
   = parse_log_comments_loop ord rest \<lparr>major_version = 1, minor_version = 2, start_time_ms = 0\<rparr>"
proof -
  have f: "fgets 4096 (version_line @ CHR 0x0A # rest) = Some (version_line @ [CHR 0x0A], rest)"
    by (rule fgets_line) (simp_all add: version_line_def)
  show ?thesis
    by (subst parse_log_comments_loop.simps) (simp add: f version_line_scan)
qed

lemma parse_loop_start_time_line:
  "parse_log_comments_loop LittleEndian (start_time_line @ CHR 0x0A # rest)
     \<lparr>major_version = 1, minor_version = 2, start_time_ms = 0\<rparr>
   = parse_log_comments_loop LittleEndian rest
       \<lparr>major_version = 1, minor_version = 2, start_time_ms = 1441812418000\<rparr>"
proof -
  have f: "fgets 4096 (start_time_line @ CHR 0x0A # rest) = Some (start_time_line @ [CHR 0x0A], rest)"
    by (rule fgets_line) (simp_all add: start_time_line_def)
  show ?thesis
    by (subst parse_log_comments_loop.simps) (simp add: f start_time_line_scan)
qed

lemma parse_claimed_header_loop:
  "parse_log_comments LittleEndian (claimed_header @ rest)
     = parse_log_comments_loop LittleEndian rest
         \<lparr>major_version = 1, minor_version = 2, start_time_ms = 1441812418000\<rparr>"
  unfolding parse_log_comments_def claimed_header_def
  using parse_loop_version_line [of LittleEndian "start_time_line @ CHR 0x0A # rest"]
        parse_loop_start_time_line [of rest]
  by simp

lemma parse_claimed_header:
  assumes "case fgets 4096 rest of None \<Rightarrow> True | Some (line, f') \<Rightarrow> \<not> is_comment line"
  shows "fst (parse_log_comments LittleEndian (claimed_header @ rest))
           = \<lparr>major_version = 1, minor_version = 2, start_time_ms = 1441812418000\<rparr>"
  unfolding parse_claimed_header_loop
  using assms by (subst parse_log_comments_loop.simps) (auto split: option.splits)

definition column_line :: string where
  "column_line = ''StartTimestamp,Interval_Length,Interval_Max,Interval_Compressed_Histogram''"

lemma column_line_fgets:
  "fgets 4096 (column_line @ CHR 0x0A # rest) = Some (column_line @ [CHR 0x0A], rest)"
  by (rule fgets_line) (simp_all add: column_line_def)

lemma column_line_no_comment: "\<not> is_comment (column_line @ [CHR 0x0A])"
  by (simp add: column_line_def is_comment_def starts_with_def c_str_def isspace_def)

section \<open>Two record lines\<close>

text \<open>
  A record line whose token is twelve \<^verbatim>\<open>A\<close>: it decodes to nine zero bytes, which
  \<^verbatim>\<open>hdr_decode_compressed\<close> rejects for their cookie. And a line that is no record.
\<close>

definition failed_record :: string where
  "failed_record = ''1.0,2.0,3.0,AAAAAAAAAAAA''"

definition malformed_record :: string where
  "malformed_record = ''not a record''"

lemma getline_line:
  assumes "CHR 0x0A \<notin> set l"
  shows "getline (l @ CHR 0x0A # rest) = Some (l @ [CHR 0x0A], rest)"
  using assms by (simp add: getline_def line_prefix_line)

lemma failed_record_fields:
  "sscanf (failed_record @ [CHR 0x0A]) ''%d.%d,%d.%d,%d.%d,%s''
     = [IntValue 1, IntValue 0, IntValue 2, IntValue 0, IntValue 3, IntValue 0,
        StrValue ''AAAAAAAAAAAA'']"
  by (simp add: failed_record_def sscanf_def c_str_def isspace_def scan_int_def is_digit_def
        digit_value_def Let_def)

lemma malformed_record_fields:
  "sscanf (malformed_record @ [CHR 0x0A]) ''%d.%d,%d.%d,%d.%d,%s'' = []"
  by (simp add: malformed_record_def sscanf_def c_str_def isspace_def scan_int_def is_digit_def)

lemma token_trimmed:
  "null_trailing_whitespace ''AAAAAAAAAAAA'' 12 = (''AAAAAAAAAAAA'', 12)"
  by (subst null_trailing_whitespace.simps) (simp add: isspace_def)

lemma token_decoded:
  "base64_decode ''AAAAAAAAAAAA'' 9 = Some (Inr [0, 0, 0, 0, 0, 0, 0, 0, 0])"
  by (simp add: base64_decode_def nat_and_3 base64_decode_loop.simps base64_decode_block_def INT_MAX_def
        from_base_64_def char_int_def)

lemma zero_envelope_rejected:
  assumes "uninit_h env = 0"
  shows "hdr_decode_compressed env (0 # 0 # 0 # 0 # tail) 9 None
     = Some (Failure HDR_COMPRESSION_COOKIE_MISMATCH, None)"
proof -
  have "be_word32 (0 # 0 # 0 # 0 # tail) \<noteq> COMPRESSION_COOKIE"
    by (simp add: be_word32_def COMPRESSION_COOKIE_value)
  moreover have "be32toh (byte_order env) (load32 (byte_order env) (0 # 0 # 0 # 0 # tail))
     = be_word32 (0 # 0 # 0 # 0 # tail)"
    by (rule be32toh_load32) simp
  ultimately show ?thesis
    using assms by (simp add: hdr_decode_compressed_def cleanup_uninitialised_def)
qed

lemma parse_lines_failed_record:
  assumes "alloc_ok env 25" and "uninit_h env = 0"
  shows "parse_lines_loop env (failed_record @ CHR 0x0A # rest) printed
           = parse_lines_loop env rest printed"
proof -
  have g: "getline (failed_record @ CHR 0x0A # rest) = Some (failed_record @ [CHR 0x0A], rest)"
    by (rule getline_line) (simp add: failed_record_def)
  have n: "length failed_record = 24" by (simp add: failed_record_def)
  have s: "strlen ''AAAAAAAAAAAA'' = 12" "c_str ''AAAAAAAAAAAA'' = ''AAAAAAAAAAAA''"
    by (simp_all add: strlen_def c_str_def)
  show ?thesis
    using assms
    by (subst parse_lines_loop.simps)
       (simp add: g n failed_record_fields s token_trimmed base64_decoded_len_def token_decoded
          zero_envelope_rejected [OF assms(2)] Let_def)
qed

lemma parse_lines_malformed_record:
  assumes "alloc_ok env 13"
  shows "parse_lines_loop env (malformed_record @ CHR 0x0A # rest) printed
           = Some (Failure EINVAL, rest, printed)"
proof -
  have g: "getline (malformed_record @ CHR 0x0A # rest) = Some (malformed_record @ [CHR 0x0A], rest)"
    by (rule getline_line) (simp add: malformed_record_def)
  have n: "length malformed_record = 12" by (simp add: malformed_record_def)
  show ?thesis
    using assms
    by (subst parse_lines_loop.simps) (simp add: g n malformed_record_fields Let_def)
qed

lemma parse_lines_end: "parse_lines_loop env [] printed = Some (Success, [], printed)"
  by (subst parse_lines_loop.simps) (simp add: getline_def)


lemma parse_loop_column_line:
  "parse_log_comments_loop ord (column_line @ CHR 0x0A # rest) header = (header, rest)"
  by (subst parse_log_comments_loop.simps) (simp add: column_line_fgets column_line_no_comment)

section \<open>The log: the claims\<close>

text \<open>
  C3, as amended. On a little-endian host, a log that starts with the line
  \<^verbatim>\<open>#[Histogram log format version 1.2]\<close> and the line
  \<^verbatim>\<open>#[StartTime: 1441812279.139000 ...]\<close>, and goes on with a line that is no comment (or
  ends there), gives the header \<open>major_version = 1\<close>, \<open>minor_version = 2\<close> and
  \<open>start_time_ms = 1441812279 * 1000 + 139000\<close>: the digits after the dot are read as one
  decimal number and added as milliseconds.
\<close>

theorem parse_log_comments_claimed_header:
  assumes "case fgets 4096 rest of None \<Rightarrow> True | Some (line, f') \<Rightarrow> \<not> is_comment line"
  shows "fst (parse_log_comments LittleEndian (claimed_header @ rest))
           = \<lparr>major_version = 1, minor_version = 2,
              start_time_ms = 1441812279 * 1000 + 139000\<rparr>"
  using parse_claimed_header [OF assms] by simp

theorem parse_log_comments_claimed_header_witness:
  "fst (parse_log_comments LittleEndian (claimed_header @ []))
     = \<lparr>major_version = 1, minor_version = 2, start_time_ms = 1441812418000\<rparr> \<and>
   fst (parse_log_comments LittleEndian (claimed_header @ column_line @ [CHR 0x0A]))
     = \<lparr>major_version = 1, minor_version = 2, start_time_ms = 1441812418000\<rparr>"
proof -
  have 1: "case fgets 4096 [] of None \<Rightarrow> True | Some (line, f') \<Rightarrow> \<not> is_comment line"
    by (simp add: fgets_def)
  have 2: "case fgets 4096 (column_line @ [CHR 0x0A]) of None \<Rightarrow> True
           | Some (line, f') \<Rightarrow> \<not> is_comment line"
    using column_line_fgets [of "[]"] column_line_no_comment by simp
  show ?thesis
    using parse_log_comments_claimed_header [OF 1] parse_log_comments_claimed_header [OF 2]
    by simp
qed

text \<open>
  C3, as claimed, fails: the start time of the claim's header is 1441812418000, not
  1441812279139.
\<close>

theorem parse_log_comments_start_time_counterexample:
  "start_time_ms (fst (parse_log_comments LittleEndian claimed_header)) = 1441812418000 \<and>
   start_time_ms (fst (parse_log_comments LittleEndian claimed_header)) \<noteq> 1441812279139"
proof -
  have "case fgets 4096 [] of None \<Rightarrow> True | Some (line, f') \<Rightarrow> \<not> is_comment line"
    by (simp add: fgets_def)
  then have "fst (parse_log_comments LittleEndian (claimed_header @ []))
     = \<lparr>major_version = 1, minor_version = 2, start_time_ms = 1441812418000\<rparr>"
    by (rule parse_claimed_header)
  then show ?thesis by simp
qed

text \<open>
  C5. The claim: a record whose token decodes and whose \<^verbatim>\<open>hdr_decode_compressed\<close> step
  fails aborts the parse with that error. The code does not: \<^verbatim>\<open>parse_lines\<close> tests only
  for the return 0 and goes on to the next line. On a log of the one record line with the
  rejected envelope it returns 0; with a malformed line after it, it returns the
  \<^verbatim>\<open>EINVAL\<close> of that second line.
\<close>

theorem parse_lines_ignores_decode_failure:
  "hdr_decode_compressed (stored_env LittleEndian)
       ([0, 0, 0, 0, 0, 0, 0, 0, 0] @ replicate 16 0) 9 None
     = Some (Failure HDR_COMPRESSION_COOKIE_MISMATCH, None) \<and>
   parse_lines (stored_env LittleEndian) (failed_record @ [CHR 0x0A])
     = Some (Success, [], []) \<and>
   parse_lines (stored_env LittleEndian)
       (failed_record @ [CHR 0x0A] @ malformed_record @ [CHR 0x0A])
     = Some (Failure EINVAL, [], [])"
proof -
  have a: "alloc_ok (stored_env LittleEndian) n" for n by (simp add: stored_env_def)
  have u: "uninit_h (stored_env LittleEndian) = 0" by (simp add: stored_env_def)
  have 1: "parse_lines (stored_env LittleEndian) (failed_record @ [CHR 0x0A]) = Some (Success, [], [])"
    using parse_lines_failed_record [OF a u, of "[]" "[]"] by (simp add: parse_lines_def parse_lines_end)
  have 2: "parse_lines (stored_env LittleEndian)
             (failed_record @ [CHR 0x0A] @ malformed_record @ [CHR 0x0A])
           = Some (Failure EINVAL, [], [])"
    using parse_lines_failed_record [OF a u, of "malformed_record @ [CHR 0x0A]" "[]"]
          parse_lines_malformed_record [OF a, of "[]" "[]"]
    by (simp add: parse_lines_def)
  show ?thesis
    using 1 2 zero_envelope_rejected [OF u, of "[0, 0, 0, 0, 0] @ replicate 16 0"]
    by simp
qed

text \<open>
  C6. \<^verbatim>\<open>parse_lines\<close> halts at a line that does not give seven fields and returns
  \<^verbatim>\<open>EINVAL\<close> (the record line after it is left unread), but \<^verbatim>\<open>hdr_parse_log\<close> drops
  what \<^verbatim>\<open>parse_lines\<close> returns and returns 0.
\<close>

theorem hdr_parse_log_swallows_einval:
  "parse_lines (stored_env LittleEndian)
       (malformed_record @ [CHR 0x0A] @ failed_record @ [CHR 0x0A])
     = Some (Failure EINVAL, failed_record @ [CHR 0x0A], []) \<and>
   hdr_parse_log (stored_env LittleEndian)
       (claimed_header @ column_line @ [CHR 0x0A] @ malformed_record @ [CHR 0x0A]
          @ failed_record @ [CHR 0x0A])
     = Some (Success, failed_record @ [CHR 0x0A], [])"
proof -
  have a: "alloc_ok (stored_env LittleEndian) n" for n by (simp add: stored_env_def)
  have b: "byte_order (stored_env LittleEndian) = LittleEndian" by (simp add: stored_env_def)
  have 1: "parse_lines (stored_env LittleEndian)
             (malformed_record @ [CHR 0x0A] @ failed_record @ [CHR 0x0A])
           = Some (Failure EINVAL, failed_record @ [CHR 0x0A], [])"
    using parse_lines_malformed_record [OF a, of "failed_record @ [CHR 0x0A]" "[]"]
    by (simp add: parse_lines_def)
  have 2: "parse_log_comments LittleEndian
             (claimed_header @ column_line @ [CHR 0x0A] @ malformed_record @ [CHR 0x0A]
                @ failed_record @ [CHR 0x0A])
           = (\<lparr>major_version = 1, minor_version = 2, start_time_ms = 1441812418000\<rparr>,
              malformed_record @ [CHR 0x0A] @ failed_record @ [CHR 0x0A])"
    using parse_claimed_header_loop
            [of "column_line @ [CHR 0x0A] @ malformed_record @ [CHR 0x0A] @ failed_record @ [CHR 0x0A]"]
          parse_loop_column_line
            [of LittleEndian "malformed_record @ [CHR 0x0A] @ failed_record @ [CHR 0x0A]"]
    by simp
  show ?thesis
    using 1 2 by (simp add: hdr_parse_log_def b)
qed

section \<open>Encoding: the returned length\<close>

lemma store32_htobe32: "store32 ord (htobe32 ord w) = rev (le_bytes32 w)"
proof (cases ord)
  case LittleEndian
  have "le_bytes32 (le_word32 (rev (le_bytes32 w))) = rev (le_bytes32 w)"
    unfolding le_bytes32_def [of w] by (simp only: rev.simps append.simps le_bytes32_le_word32)
  then show ?thesis using LittleEndian by (simp add: bswap32_def)
next
  case BigEndian
  then show ?thesis by simp
qed

lemma store64_htobe64: "store64 ord (htobe64 ord w) = rev (le_bytes64 w)"
proof (cases ord)
  case LittleEndian
  have "le_bytes64 (le_word64 (rev (le_bytes64 w))) = rev (le_bytes64 w)"
    unfolding le_bytes64_def [of w] by (simp only: rev.simps append.simps le_bytes64_le_word64)
  then show ?thesis using LittleEndian by (simp add: bswap64_def)
next
  case BigEndian
  then show ?thesis by simp
qed

lemma encode_flyweight_bytes:
  "encode_flyweight ord h =
     rev (le_bytes32 ENCODING_COOKIE) @ rev (le_bytes32 (significant_figures h)) @
     rev (le_bytes64 (lowest_trackable_value h)) @ rev (le_bytes64 (highest_trackable_value h)) @
     rev (le_bytes64 (total_count h))"
  by (simp add: encode_flyweight_def store32_htobe32 store64_htobe64)

definition good_flyweight :: "u8 list" where
  "good_flyweight = [0x1c, 0x84, 0x93, 0x88, 0, 0, 0, 3, 0, 0, 0, 0, 0, 0, 0, 1,
                     0, 0, 0, 0, 0, 0, 0, 100, 0, 0, 0, 0, 0, 0, 0, 5]"

definition good_chunk :: "u8 list" where
  "good_chunk = [0, 0, 0, 0, 0, 0, 0, 1, 0, 0, 0, 0, 0, 0, 0, 2]"

lemma good_flyweight_encoded: "encode_flyweight ord good_histogram = good_flyweight"
  by (simp add: encode_flyweight_bytes good_histogram_def ENCODING_COOKIE_value
        le_bytes32_def le_bytes64_def good_flyweight_def)

lemma good_chunk_filled: "fill_chunk ord good_histogram 0 0 [] = (good_chunk, 2, 2)"
  by (simp add: fill_chunk.simps store64_htobe64 good_histogram_def le_bytes64_def good_chunk_def)

lemma good_chunk_end: "fill_chunk ord good_histogram 0 2 [] = ([], 0, 2)"
  by (simp add: fill_chunk.simps good_histogram_def)

lemma stored_env_fields:
  "byte_order (stored_env ord) = ord"
  "alloc_ok (stored_env ord) n"
  "deflateInit (stored_env ord) level = (Z_OK, \<lparr>sent = [], pending = []\<rparr>)"
  "deflate (stored_env ord) = stored_deflate"
  "heap (stored_env ord) = (\<lambda>i. 0xAA)"
  by (simp_all add: stored_env_def)

lemma good_lengths: "length good_flyweight = 32" "length good_chunk = 16"
  by (simp_all add: good_flyweight_def good_chunk_def)

lemma good_deflate_calls:
  "zlib_call stored_deflate
     \<lparr>next_in = good_flyweight, avail_out = 4088, total_out = 0,
      state = \<lparr>sent = [], pending = []\<rparr>\<rparr> Z_NO_FLUSH
   = (Z_OK, \<lparr>next_in = [], avail_out = 4056, total_out = 32,
             state = \<lparr>sent = good_flyweight, pending = []\<rparr>\<rparr>, good_flyweight)"
  "zlib_call stored_deflate
     \<lparr>next_in = good_chunk, avail_out = 4056, total_out = 32,
      state = \<lparr>sent = good_flyweight, pending = []\<rparr>\<rparr> Z_NO_FLUSH
   = (Z_OK, \<lparr>next_in = [], avail_out = 4040, total_out = 48,
             state = \<lparr>sent = good_flyweight @ good_chunk, pending = []\<rparr>\<rparr>,
      good_chunk)"
  "zlib_call stored_deflate
     \<lparr>next_in = [], avail_out = 4040, total_out = 48,
      state = \<lparr>sent = good_flyweight @ good_chunk, pending = []\<rparr>\<rparr> Z_FINISH
   = (Z_STREAM_END, \<lparr>next_in = [], avail_out = 4040, total_out = 48,
             state = \<lparr>sent = good_flyweight @ good_chunk, pending = []\<rparr>\<rparr>,
      [])"
  by (simp_all add: zlib_call_def stored_deflate_def Let_def good_lengths
        Z_OK_def Z_STREAM_END_def Z_FINISH_def Z_NO_FLUSH_def)

lemma grow_buffer_room:
  "0 < avail_out (enc_strm b) \<Longrightarrow> grow_buffer env b = Some (Success, b)"
  by (subst grow_buffer.simps) simp

definition good_buffer :: "stored_state encoder" where
  "good_buffer =
     \<lparr>enc_strm = \<lparr>next_in = [], avail_out = 4040, total_out = 48,
              state = \<lparr>sent = good_flyweight @ good_chunk, pending = []\<rparr>\<rparr>,
      enc_len = 4096,
      enc_buf = write_at (write_at (write_at (\<lambda>i. 0xAA) 8 good_flyweight) 40 good_chunk) 56 [],
      enc_next_out = 56\<rparr>"

lemma good_encode_loop:
  "encode_counts_loop (stored_env ord) good_histogram
     \<lparr>enc_strm = \<lparr>next_in = [], avail_out = 4056, total_out = 32,
              state = \<lparr>sent = good_flyweight, pending = []\<rparr>\<rparr>,
      enc_len = 4096, enc_buf = write_at (\<lambda>i. 0xAA) 8 good_flyweight, enc_next_out = 40\<rparr> 0
   = Some (Success, good_buffer)"
proof -
  have l2: "encode_counts_loop (stored_env ord) good_histogram
     \<lparr>enc_strm = \<lparr>next_in = [], avail_out = 4040, total_out = 48,
              state = \<lparr>sent = good_flyweight @ good_chunk, pending = []\<rparr>\<rparr>,
      enc_len = 4096, enc_buf = write_at (write_at (\<lambda>i. 0xAA) 8 good_flyweight) 40 good_chunk,
      enc_next_out = 56\<rparr> 2
   = Some (Success, good_buffer)"
    by (subst encode_counts_loop.simps)
       (simp add: grow_buffer_room stored_env_fields good_chunk_end deflate_into_def
          good_deflate_calls zlib_codes Let_def good_buffer_def)
  show ?thesis
    by (subst encode_counts_loop.simps)
       (simp add: grow_buffer_room stored_env_fields good_chunk_filled deflate_into_def
          good_deflate_calls zlib_codes Let_def l2 good_lengths)
qed

lemma good_encode:
  "hdr_encode_compressed (stored_env ord) good_histogram
     = Some (Success,
             Some (bytes_at (write_at (write_at (enc_buf good_buffer) 0 [0x1c, 0x84, 0x93, 0x89]) 4
                               (store32 ord (htobe32 ord 48))) 0 4096,
                   sint (8 + htobe32 ord 48)))"
proof -
  have c: "rev (le_bytes32 COMPRESSION_COOKIE) = [0x1c, 0x84, 0x93, 0x89]"
    by (simp add: COMPRESSION_COOKIE_value le_bytes32_def)
  have g: "enc_len good_buffer = 4096" "total_out (enc_strm good_buffer) = 48"
    by (simp_all add: good_buffer_def)
  show ?thesis
    unfolding hdr_encode_compressed_def
    by (simp add: stored_env_fields good_flyweight_encoded deflate_into_def good_deflate_calls
          zlib_codes Let_def good_encode_loop good_lengths g
          store32_htobe32 [of ord COMPRESSION_COOKIE] c)
qed

text \<open>
  C4. On a little-endian host the returned length is not the header size plus the bytes
  written. For the histogram \<open>good_histogram\<close> the compressor writes 48 bytes, the length
  field of the envelope says 48, and \<^verbatim>\<open>*compressed_len\<close> is
  \<open>8 + 0x30000000 = 805306376\<close>: the code adds \<^verbatim>\<open>comp_fw->length\<close>, which it has just
  stored byte-swapped. On a big-endian host \<^verbatim>\<open>htobe32\<close> does nothing and the length is
  \<open>8 + 48\<close>.
\<close>

theorem hdr_encode_compressed_length_little_endian:
  "map_option (\<lambda>(r, out). (r, map_option snd out))
       (hdr_encode_compressed (stored_env LittleEndian) good_histogram)
     = Some (Success, Some 805306376) \<and>
   map_option (\<lambda>(r, out). (r, map_option (\<lambda>(b, n). take 8 b) out))
       (hdr_encode_compressed (stored_env LittleEndian) good_histogram)
     = Some (Success, Some [0x1c, 0x84, 0x93, 0x89, 0, 0, 0, 48]) \<and>
   map_option (\<lambda>(r, out). (r, map_option snd out))
       (hdr_encode_compressed (stored_env BigEndian) good_histogram)
     = Some (Success, Some (8 + 48))"
proof -
  have t: "take 8 (bytes_at m 0 4096) = bytes_at m 0 8" for m
    by (simp add: bytes_at_def take_map)
  have s: "store32 LittleEndian (htobe32 LittleEndian 48) = [0, 0, 0, 48]"
    unfolding store32_htobe32 by (simp add: le_bytes32_def)
  have 1: "sint (8 + htobe32 LittleEndian 48) = 805306376"
    by (simp add: bswap32_def le_word32_def le_bytes32_def)
  have 2: "sint (8 + htobe32 BigEndian 48) = 8 + 48" by simp
  have 3: "bytes_at (write_at (write_at (enc_buf good_buffer) 0 [0x1c, 0x84, 0x93, 0x89]) 4
                               [0, 0, 0, 48]) 0 8 = [0x1c, 0x84, 0x93, 0x89, 0, 0, 0, 48]"
    by (simp add: bytes_at_8 write_at_def)
  show ?thesis
    unfolding good_encode by (simp only: option.map prod.case t s 1 2 3 snd_conv) 
qed

section \<open>Encoding: the chunks\<close>

text \<open>
  \<open>be_counts h a b\<close> are the counts of \<open>h\<close> from index \<open>a\<close> up to \<open>b\<close>, eight bytes each,
  big-endian: what \<^verbatim>\<open>fill_chunk\<close> hands to zlib.
\<close>

definition be_counts :: "hdr_histogram \<Rightarrow> nat \<Rightarrow> nat \<Rightarrow> u8 list" where
  "be_counts h a b = concat (map (\<lambda>k. rev (le_bytes64 (counts h k))) [a..<b])"

lemma be_counts_empty [simp]: "be_counts h a a = []"
  by (simp add: be_counts_def)

lemma be_counts_snoc: "a \<le> b \<Longrightarrow> be_counts h a (Suc b) = be_counts h a b @ rev (le_bytes64 (counts h b))"
  by (simp add: be_counts_def)

lemma be_counts_Cons: "a < b \<Longrightarrow> be_counts h a b = rev (le_bytes64 (counts h a)) @ be_counts h (Suc a) b"
  by (simp add: be_counts_def upt_conv_Cons)

lemma be_counts_append: "a \<le> b \<Longrightarrow> b \<le> c \<Longrightarrow> be_counts h a b @ be_counts h b c = be_counts h a c"
proof -
  assume "a \<le> b" "b \<le> c"
  then have "[a..<c] = [a..<b] @ [b..<c]"
    by (metis le_Suc_ex upt_add_eq_append)
  then show ?thesis by (simp add: be_counts_def)
qed

lemma length_le_bytes64 [simp]: "length (le_bytes64 w) = 8"
  by (simp add: le_bytes64_def)

lemma length_le_bytes32 [simp]: "length (le_bytes32 w) = 4"
  by (simp add: le_bytes32_def)

lemma length_be_counts: "length (be_counts h a b) = 8 * (b - a)"
proof (induction b)
  case 0
  then show ?case by (simp add: be_counts_def)
next
  case (Suc b)
  show ?case
  proof (cases "a \<le> b")
    case True
    then show ?thesis using Suc by (simp add: be_counts_snoc)
  next
    case False
    then show ?thesis by (simp add: be_counts_def)
  qed
qed

lemma fill_chunk_spec:
  "fill_chunk ord h i ci chunk =
     (chunk @ be_counts h ci (ci + min (512 - i) (counts_len h - ci)),
      i + min (512 - i) (counts_len h - ci),
      ci + min (512 - i) (counts_len h - ci))"
proof (induction ord h i ci chunk rule: fill_chunk.induct)
  case (1 ord h i ci chunk)
  show ?case
  proof (cases "i < 512 \<and> ci < counts_len h")
    case False
    then have "min (512 - i) (counts_len h - ci) = 0" by auto
    then show ?thesis using False by (subst fill_chunk.simps) auto
  next
    case True
    have m: "min (512 - i) (counts_len h - ci) = Suc (min (512 - (i + 1)) (counts_len h - (ci + 1)))"
      using True by auto
    have "fill_chunk ord h i ci chunk =
            fill_chunk ord h (i + 1) (ci + 1) (chunk @ store64 ord (htobe64 ord (counts h ci)))"
      using True by (subst fill_chunk.simps) simp
    also note "1.IH" [OF True]
    finally show ?thesis
      unfolding m by (simp add: store64_htobe64 be_counts_Cons [of ci])
  qed
qed

section \<open>Encoding: a buffer that must grow while the stream is finished\<close>

text \<open>
  A zlib that, like the library, keeps what it is given with \<^verbatim>\<open>Z_NO_FLUSH\<close> and writes
  when it is asked to flush, and that holds its caller to the rule of \<^verbatim>\<open>zlib.h\<close> for
  \<^verbatim>\<open>Z_FINISH\<close>: once \<^verbatim>\<open>deflate\<close> has been called with \<^verbatim>\<open>Z_FINISH\<close>, it must be called
  again with \<^verbatim>\<open>Z_FINISH\<close> and more output space until it returns \<^verbatim>\<open>Z_STREAM_END\<close>; a
  call with another flush value is refused with \<^verbatim>\<open>Z_STREAM_ERROR\<close>. It stores the bytes
  as they are. The histogram \<open>golden\<close> has 2048 buckets with counts that do not compress.
\<close>

definition Z_STREAM_ERROR :: int where "Z_STREAM_ERROR = -2"

record buffering_state =
  held :: "u8 list"
  finishing :: bool

definition buffering_deflate :: "buffering_state zlib_call" where
  "buffering_deflate z input avail flush =
     (if finishing z \<and> flush \<noteq> Z_FINISH then (Z_STREAM_ERROR, z, 0, [])
      else if flush = Z_NO_FLUSH then (Z_OK, z\<lparr>held := held z @ input\<rparr>, length input, [])
      else (let queue = held z @ input;
                out = take avail queue
            in (if flush = Z_FINISH \<and> length queue \<le> avail then Z_STREAM_END else Z_OK,
                \<lparr>held = drop avail queue, finishing = (flush = Z_FINISH)\<rparr>, length input, out)))"

definition buffering_env :: "endian \<Rightarrow> (buffering_state, unit) env" where
  "buffering_env ord =
     \<lparr>byte_order = ord, alloc_ok = (\<lambda>n. True), stack = (\<lambda>i. 0xAA), heap = (\<lambda>i. 0xAA),
      uninit_h = 0, hdr_init = two_buckets,
      deflateInit = (\<lambda>level. (Z_OK, \<lparr>held = [], finishing = False\<rparr>)),
      deflate = buffering_deflate,
      inflateInit = (Z_OK, ()), inflate = stored_inflate\<rparr>"

definition golden :: hdr_histogram where
  "golden =
     \<lparr>lowest_trackable_value = 1, highest_trackable_value = 2047, significant_figures = 3,
      total_count = 0, counts_len = 2048,
      counts = (\<lambda>i. word_of_nat (((i + 1) * 0x9E3779B97F4A7C15) mod 2 ^ 63))\<rparr>"

lemma buffering_env_fields:
  "byte_order (buffering_env ord) = ord"
  "alloc_ok (buffering_env ord) n"
  "deflateInit (buffering_env ord) level = (Z_OK, \<lparr>held = [], finishing = False\<rparr>)"
  "deflate (buffering_env ord) = buffering_deflate"
  "heap (buffering_env ord) = (\<lambda>i. 0xAA)"
  by (simp_all add: buffering_env_def)

lemma zlib_flush_codes:
  "Z_FINISH \<noteq> Z_NO_FLUSH" "Z_NO_FLUSH \<noteq> Z_FINISH" "Z_SYNC_FLUSH \<noteq> Z_FINISH"
  "Z_SYNC_FLUSH \<noteq> Z_NO_FLUSH"
  by (simp_all add: Z_FINISH_def Z_NO_FLUSH_def Z_SYNC_FLUSH_def)

lemma zlib_error_codes:
  "Z_STREAM_ERROR \<noteq> Z_OK" "Z_STREAM_ERROR \<noteq> Z_STREAM_END"
  by (simp_all add: Z_STREAM_ERROR_def Z_OK_def Z_STREAM_END_def)

lemma length_encode_flyweight [simp]: "length (encode_flyweight ord h) = 32"
  by (simp add: encode_flyweight_bytes)

definition buffering :: "buffering_state encoder \<Rightarrow> nat \<Rightarrow> bool" where
  "buffering b n \<longleftrightarrow>
     avail_out (enc_strm b) = 4088 \<and> \<not> finishing (state (enc_strm b)) \<and>
     length (held (state (enc_strm b))) = n"

lemma buffering_loop_fails:
  assumes "buffering b (32 + 8 * ci)" "ci \<le> counts_len h" "507 < counts_len h"
  shows "\<exists>b'. encode_counts_loop (buffering_env ord) h b ci = Some (Failure HDR_DEFLATE_FAIL, b')"
  using assms
proof (induction "counts_len h - ci" arbitrary: b ci rule: less_induct)
  case less
  define m where "m = min 512 (counts_len h - ci)"
  have fc: "fill_chunk ord h 0 ci [] = (be_counts h ci (ci + m), m, ci + m)"
    unfolding m_def by (simp add: fill_chunk_spec)
  have b: "avail_out (enc_strm b) = 4088" "\<not> finishing (state (enc_strm b))"
    "length (held (state (enc_strm b))) = 32 + 8 * ci"
    using less.prems(1) by (simp_all add: buffering_def)
  have g: "grow_buffer (buffering_env ord) b = Some (Success, b)"
    by (rule grow_buffer_room) (simp add: b)
  show ?case
  proof (cases "m = 0")
    case False
    define b2 where "b2 = snd (deflate_into (buffering_env ord)
                                 (b\<lparr>enc_strm := (enc_strm b)\<lparr>next_in := be_counts h ci (ci + m)\<rparr>\<rparr>)
                                 Z_NO_FLUSH)"
    have d: "deflate_into (buffering_env ord)
               (b\<lparr>enc_strm := (enc_strm b)\<lparr>next_in := be_counts h ci (ci + m)\<rparr>\<rparr>) Z_NO_FLUSH
             = (Z_OK, b2)"
      unfolding b2_def
      by (simp add: deflate_into_def zlib_call_def buffering_env_fields buffering_deflate_def b
            zlib_flush_codes Let_def)
    have b2: "buffering b2 (32 + 8 * (ci + m))"
      unfolding b2_def buffering_def
      by (simp add: deflate_into_def zlib_call_def buffering_env_fields buffering_deflate_def b
            zlib_flush_codes Let_def length_be_counts)
    have step: "encode_counts_loop (buffering_env ord) h b ci
                  = encode_counts_loop (buffering_env ord) h b2 (ci + m)"
      using False
      by (subst encode_counts_loop.simps)
         (simp add: g buffering_env_fields fc d Let_def zlib_codes)
    have "counts_len h - (ci + m) < counts_len h - ci"
      using False less.prems(2) unfolding m_def by auto
    moreover have "ci + m \<le> counts_len h" using less.prems(2) unfolding m_def by simp
    ultimately show ?thesis
      unfolding step using less.hyps [of "ci + m" b2] b2 less.prems(3) by blast
  next
    case True
    then have ci: "ci = counts_len h" using less.prems(2) unfolding m_def by simp
    define b3 where "b3 = snd (deflate_into (buffering_env ord)
                                 (b\<lparr>enc_strm := (enc_strm b)\<lparr>next_in := []\<rparr>\<rparr>) Z_FINISH)"
    have big: "4088 < 32 + 8 * ci" using less.prems(3) unfolding ci by simp
    have d: "deflate_into (buffering_env ord)
               (b\<lparr>enc_strm := (enc_strm b)\<lparr>next_in := []\<rparr>\<rparr>) Z_FINISH = (Z_OK, b3)"
      unfolding b3_def using big
      by (simp add: deflate_into_def zlib_call_def buffering_env_fields buffering_deflate_def b
            zlib_flush_codes Let_def)
    have b3: "avail_out (enc_strm b3) = 0" "finishing (state (enc_strm b3))"
      unfolding b3_def using big
      by (simp_all add: deflate_into_def zlib_call_def buffering_env_fields buffering_deflate_def b
            zlib_flush_codes Let_def)
    have step: "encode_counts_loop (buffering_env ord) h b ci
                  = encode_counts_loop (buffering_env ord) h b3 ci"
      using True
      by (subst encode_counts_loop.simps)
         (simp add: g buffering_env_fields fc d Let_def zlib_codes)
    have "\<exists>b4. grow_buffer (buffering_env ord) b3 = Some (Failure HDR_DEFLATE_FAIL, b4)"
      by (subst grow_buffer.simps)
         (simp add: b3 buffering_env_fields deflate_into_def zlib_call_def buffering_deflate_def
            zlib_flush_codes zlib_error_codes Let_def)
    then obtain b4 where
      g3: "grow_buffer (buffering_env ord) b3 = Some (Failure HDR_DEFLATE_FAIL, b4)" by blast
    have "encode_counts_loop (buffering_env ord) h b3 ci = Some (Failure HDR_DEFLATE_FAIL, b4)"
      by (subst encode_counts_loop.simps) (simp add: g3)
    then show ?thesis unfolding step by blast
  qed
qed

text \<open>
  C1. The round trip fails for histograms that make the buffer grow at the end of the
  stream. With a zlib that buffers and follows \<^verbatim>\<open>zlib.h\<close>, every histogram of more than
  507 buckets (32 header bytes and eight bytes a bucket do not fit the 4088 bytes of the
  first buffer) makes \<^verbatim>\<open>hdr_encode_compressed\<close> fail with \<^verbatim>\<open>HDR_DEFLATE_FAIL\<close>, so that
  there are no bytes to decode: \<^verbatim>\<open>deflate\<close> with \<^verbatim>\<open>Z_FINISH\<close> fills the buffer and
  returns \<^verbatim>\<open>Z_OK\<close>, the growth loop doubles the buffer and calls \<^verbatim>\<open>deflate\<close> with
  \<^verbatim>\<open>Z_SYNC_FLUSH\<close>, and zlib refuses that call.
\<close>

theorem hdr_encode_compressed_growth_at_finish:
  assumes "507 < counts_len h"
  shows "hdr_encode_compressed (buffering_env ord) h = Some (Failure HDR_DEFLATE_FAIL, None)"
proof -
  define b0 :: "buffering_state encoder" where
    "b0 = \<lparr>enc_strm = \<lparr>next_in = encode_flyweight ord h, avail_out = 4096 - 8, total_out = 0,
                         state = \<lparr>held = [], finishing = False\<rparr>\<rparr>,
            enc_len = 4096, enc_buf = (\<lambda>i. 0xAA), enc_next_out = 8\<rparr>"
  define b1 where "b1 = snd (deflate_into (buffering_env ord) b0 Z_NO_FLUSH)"
  have d: "deflate_into (buffering_env ord) b0 Z_NO_FLUSH = (Z_OK, b1)"
    unfolding b1_def b0_def
    by (simp add: deflate_into_def zlib_call_def buffering_env_fields buffering_deflate_def Let_def)
  have b1: "buffering b1 (32 + 8 * 0)"
    unfolding b1_def b0_def buffering_def
    by (simp add: deflate_into_def zlib_call_def buffering_env_fields buffering_deflate_def Let_def)
  obtain b' where l: "encode_counts_loop (buffering_env ord) h b1 0 = Some (Failure HDR_DEFLATE_FAIL, b')"
    using buffering_loop_fails [OF b1 _ assms, of ord] by auto
  show ?thesis
    unfolding hdr_encode_compressed_def
    using d l unfolding b0_def
    by (simp add: buffering_env_fields Let_def)
qed

text \<open>
  The same zlib on the small histogram of two buckets: the encoder succeeds and the
  decoder gives the histogram back.
\<close>

lemma nth_bytes_at: "i < n \<Longrightarrow> bytes_at mem off n ! i = mem (off + i)"
  by (simp add: bytes_at_def)

lemma bytes_at_slice:
  "off + n \<le> m \<Longrightarrow> take n (drop off (bytes_at mem 0 m)) = bytes_at mem off n"
  by (auto simp: list_eq_iff_nth_eq nth_bytes_at)

lemma bytes_at_written: "bytes_at (write_at mem off out) off (length out) = out"
  by (auto simp: list_eq_iff_nth_eq nth_bytes_at write_at_def)

lemma bytes_at_write_before:
  "a + length xs \<le> off \<Longrightarrow> bytes_at (write_at mem a xs) off n = bytes_at mem off n"
  by (auto simp: list_eq_iff_nth_eq nth_bytes_at write_at_def)

lemma bytes_at_head:
  assumes "length ck = 4" "4 \<le> L"
  shows "take 4 (bytes_at (write_at (write_at mem 0 ck) 4 lf) 0 L) = ck"
proof -
  have "take 4 (drop 0 (bytes_at (write_at (write_at mem 0 ck) 4 lf) 0 L))
          = bytes_at (write_at (write_at mem 0 ck) 4 lf) 0 4"
    using assms(2) by (intro bytes_at_slice) simp
  also have "\<dots> = ck"
    using assms(1) by (auto simp: list_eq_iff_nth_eq nth_bytes_at write_at_def)
  finally show ?thesis by simp
qed

lemma bytes_at_length_field:
  assumes "length lf = 4" "8 \<le> L"
  shows "take 4 (drop 4 (bytes_at (write_at (write_at mem 0 ck) 4 lf) 0 L)) = lf"
proof -
  have "take 4 (drop 4 (bytes_at (write_at (write_at mem 0 ck) 4 lf) 0 L))
          = bytes_at (write_at (write_at mem 0 ck) 4 lf) 4 4"
    using assms(2) by (intro bytes_at_slice) simp
  also have "\<dots> = lf"
    using bytes_at_written [of "write_at mem 0 ck" 4 lf] assms(1) by simp
  finally show ?thesis .
qed

lemma bytes_at_payload:
  assumes "length ck = 4" "length lf = 4" "8 + n \<le> L"
  shows "take n (drop 8 (bytes_at (write_at (write_at mem 0 ck) 4 lf) 0 L)) = bytes_at mem 8 n"
proof -
  have "take n (drop 8 (bytes_at (write_at (write_at mem 0 ck) 4 lf) 0 L))
          = bytes_at (write_at (write_at mem 0 ck) 4 lf) 8 n"
    using assms(3) by (intro bytes_at_slice) simp
  also have "\<dots> = bytes_at (write_at mem 0 ck) 8 n"
    using assms(2) by (intro bytes_at_write_before) simp
  also have "\<dots> = bytes_at mem 8 n"
    using assms(1) by (intro bytes_at_write_before) simp
  finally show ?thesis .
qed

definition small_envelope :: "endian \<Rightarrow> u8 list" where
  "small_envelope ord =
     bytes_at (write_at (write_at (write_at (write_at (write_at (\<lambda>i. 0xAA) 8 []) 8 []) 8
                                     (good_flyweight @ good_chunk))
                           0 [0x1c, 0x84, 0x93, 0x89]) 4 [0, 0, 0, 48]) 0 4096"

lemma buffering_encodes_small:
  "hdr_encode_compressed (buffering_env ord) good_histogram
     = Some (Success, Some (small_envelope ord, sint (8 + htobe32 ord 48)))"
proof -
  have c: "rev (le_bytes32 COMPRESSION_COOKIE) = [0x1c, 0x84, 0x93, 0x89]"
    by (simp add: COMPRESSION_COOKIE_value le_bytes32_def)
  have s: "store32 ord (htobe32 ord 48) = [0, 0, 0, 48]"
    unfolding store32_htobe32 by (simp add: le_bytes32_def)
  have l2: "encode_counts_loop (buffering_env ord) good_histogram
     \<lparr>enc_strm = \<lparr>next_in = [], avail_out = 4088, total_out = 0,
                  state = \<lparr>held = good_flyweight @ good_chunk, finishing = False\<rparr>\<rparr>,
      enc_len = 4096, enc_buf = write_at (write_at (\<lambda>i. 0xAA) 8 []) 8 [], enc_next_out = 8\<rparr> 2
   = Some (Success,
      \<lparr>enc_strm = \<lparr>next_in = [], avail_out = 4040, total_out = 48,
                  state = \<lparr>held = [], finishing = True\<rparr>\<rparr>,
       enc_len = 4096,
       enc_buf = write_at (write_at (write_at (\<lambda>i. 0xAA) 8 []) 8 []) 8 (good_flyweight @ good_chunk),
       enc_next_out = 56\<rparr>)"
    by (subst encode_counts_loop.simps)
       (simp add: grow_buffer_room buffering_env_fields good_chunk_end deflate_into_def
          zlib_call_def buffering_deflate_def zlib_flush_codes zlib_codes Let_def good_lengths)
  have l1: "encode_counts_loop (buffering_env ord) good_histogram
     \<lparr>enc_strm = \<lparr>next_in = [], avail_out = 4088, total_out = 0,
                  state = \<lparr>held = good_flyweight, finishing = False\<rparr>\<rparr>,
      enc_len = 4096, enc_buf = write_at (\<lambda>i. 0xAA) 8 [], enc_next_out = 8\<rparr> 0
   = Some (Success,
      \<lparr>enc_strm = \<lparr>next_in = [], avail_out = 4040, total_out = 48,
                  state = \<lparr>held = [], finishing = True\<rparr>\<rparr>,
       enc_len = 4096,
       enc_buf = write_at (write_at (write_at (\<lambda>i. 0xAA) 8 []) 8 []) 8 (good_flyweight @ good_chunk),
       enc_next_out = 56\<rparr>)"
    by (subst encode_counts_loop.simps)
       (simp add: grow_buffer_room buffering_env_fields good_chunk_filled deflate_into_def
          zlib_call_def buffering_deflate_def zlib_flush_codes zlib_codes Let_def good_lengths l2)
  show ?thesis
    unfolding hdr_encode_compressed_def
    by (simp add: buffering_env_fields good_flyweight_encoded deflate_into_def zlib_call_def
          buffering_deflate_def zlib_flush_codes zlib_codes Let_def l1 good_lengths
          store32_htobe32 [of ord COMPRESSION_COOKIE] c s small_envelope_def)
qed

lemma small_envelope_parts:
  "take 4 (small_envelope ord) = [0x1c, 0x84, 0x93, 0x89]"
  "take 4 (drop 4 (small_envelope ord)) = [0, 0, 0, 48]"
  "take 48 (drop 8 (small_envelope ord)) = good_flyweight @ good_chunk"
  "length (small_envelope ord) = 4096"
proof -
  show "take 4 (small_envelope ord) = [0x1c, 0x84, 0x93, 0x89]"
    unfolding small_envelope_def by (rule bytes_at_head) simp_all
  show "take 4 (drop 4 (small_envelope ord)) = [0, 0, 0, 48]"
    unfolding small_envelope_def by (rule bytes_at_length_field) simp_all
  have "take 48 (drop 8 (small_envelope ord))
          = bytes_at (write_at (write_at (write_at (\<lambda>i. 0xAA) 8 []) 8 []) 8
                        (good_flyweight @ good_chunk)) 8 48"
    unfolding small_envelope_def by (rule bytes_at_payload) simp_all
  also have "\<dots> = good_flyweight @ good_chunk"
    using bytes_at_written [of "write_at (write_at (\<lambda>i. 0xAA) 8 []) 8 []" 8
            "good_flyweight @ good_chunk"]
    by (simp add: good_lengths)
  finally show "take 48 (drop 8 (small_envelope ord)) = good_flyweight @ good_chunk" .
  show "length (small_envelope ord) = 4096" by (simp add: small_envelope_def)
qed


lemma be_word32_take: "be_word32 (take 4 bs) = be_word32 bs"
  by (simp add: be_word32_def)

lemma small_decode:
  "hdr_decode_compressed (buffering_env LittleEndian) (small_envelope LittleEndian) 805306376 None
     = Some (Success, Some good_histogram)"
proof -
  let ?buffer = "small_envelope LittleEndian"
  have c: "bswap32 (le_word32 ?buffer) = COMPRESSION_COOKIE"
  proof -
    have "bswap32 (le_word32 ?buffer) = be_word32 ?buffer"
      by (rule bswap32_le_word32) (simp add: small_envelope_parts)
    also have "\<dots> = be_word32 (take 4 ?buffer)" by (simp only: be_word32_take)
    also have "\<dots> = COMPRESSION_COOKIE"
      unfolding small_envelope_parts by (simp add: be_word32_def COMPRESSION_COOKIE_value)
    finally show ?thesis .
  qed
  have n: "bswap32 (le_word32 (drop 4 ?buffer)) = 48"
  proof -
    have "bswap32 (le_word32 (drop 4 ?buffer)) = be_word32 (drop 4 ?buffer)"
      by (rule bswap32_le_word32) (simp add: small_envelope_parts)
    also have "\<dots> = be_word32 (take 4 (drop 4 ?buffer))" by (simp only: be_word32_take)
    also have "\<dots> = 48"
      unfolding small_envelope_parts by (simp add: be_word32_def)
    finally show ?thesis .
  qed
  have h: "zlib_call stored_inflate
              \<lparr>next_in = good_flyweight @ good_chunk, avail_out = 32, total_out = 0, state = ()\<rparr>
              Z_SYNC_FLUSH
     = (Z_OK,
        \<lparr>next_in = [0, 0, 0, 0, 0, 0, 0, 1, 0, 0, 0, 0, 0, 0, 0, 2],
         avail_out = 0, total_out = 32, state = ()\<rparr>,
        [0x1c, 0x84, 0x93, 0x88, 0, 0, 0, 3, 0, 0, 0, 0, 0, 0, 0, 1,
         0, 0, 0, 0, 0, 0, 0, 100, 0, 0, 0, 0, 0, 0, 0, 5])"
    by (simp add: zlib_call_def stored_inflate_def good_flyweight_def good_chunk_def
          Z_OK_def Z_STREAM_END_def)
  have e: "env.byte_order (buffering_env LittleEndian) = LittleEndian"
     "inflateInit (buffering_env LittleEndian) = (Z_OK, ())"
     "inflate (buffering_env LittleEndian) = stored_inflate"
     "stack (buffering_env LittleEndian) = (\<lambda>i. 0xAA)"
     "hdr_init (buffering_env LittleEndian) = two_buckets"
    by (simp_all add: buffering_env_def)
  have z: "zlib_call stored_inflate
             \<lparr>next_in = [0, 0, 0, 0, 0, 0, 0, 1, 0, 0, 0, 0, 0, 0, 0, 2],
              avail_out = 4096, total_out = 32, state = ()\<rparr> Z_SYNC_FLUSH
           = (Z_STREAM_END, \<lparr>next_in = [], avail_out = 4080, total_out = 48, state = ()\<rparr>,
              [0, 0, 0, 0, 0, 0, 0, 1, 0, 0, 0, 0, 0, 0, 0, 2])"
    by (simp add: zlib_call_def stored_inflate_def)
  have s: "store_counts LittleEndian
             (overlay [0, 0, 0, 0, 0, 0, 0, 1, 0, 0, 0, 0, 0, 0, 0, 2] (\<lambda>i. 0xAA)) 2 0
             \<lparr>lowest_trackable_value = 1, highest_trackable_value = 100, significant_figures = 3,
              total_count = 5, counts_len = 2, counts = (\<lambda>i. 0)\<rparr> 0 0
           = (good_histogram, 2, 3)"
    by (simp add: store_counts.simps Let_def bytes_at_8 overlay_def bswap64_le_word64 be_word64_def
          good_histogram_def)
  have l: "decode_counts_loop (buffering_env LittleEndian)
           \<lparr>next_in = [0, 0, 0, 0, 0, 0, 0, 1, 0, 0, 0, 0, 0, 0, 0, 2],
            avail_out = 0, total_out = 32, state = ()\<rparr> (\<lambda>i. 0xAA)
           \<lparr>lowest_trackable_value = 1, highest_trackable_value = 100, significant_figures = 3,
            total_count = 5, counts_len = 2, counts = (\<lambda>i. 0)\<rparr> 0 0
         = Some (Success, good_histogram)"
    by (subst decode_counts_loop.simps) (simp add: e z s Let_def Z_OK_def Z_STREAM_END_def)
  show ?thesis
    unfolding hdr_decode_compressed_def e
    by (simp add: c n small_envelope_parts h Let_def bytes_at_8 bytes_at_4 overlay_def
          bswap64_le_word64 bswap32_le_word32 be_word64_def be_word32_def ENCODING_COOKIE_value
          two_buckets_def l)
qed

text \<open>
  C1 on the histogram \<open>golden\<close>, and the round trip of the small histogram with the
  same zlib.
\<close>

theorem hdr_encode_compressed_growth_at_finish_witness:
  "507 < counts_len golden \<and>
   hdr_encode_compressed (buffering_env LittleEndian) golden = Some (Failure HDR_DEFLATE_FAIL, None) \<and>
   hdr_encode_compressed (buffering_env LittleEndian) good_histogram
     = Some (Success, Some (small_envelope LittleEndian, 805306376)) \<and>
   hdr_decode_compressed (buffering_env LittleEndian) (small_envelope LittleEndian) 805306376 None
     = Some (Success, Some good_histogram)"
proof -
  have 1: "507 < counts_len golden" by (simp add: golden_def)
  have 2: "sint (8 + htobe32 LittleEndian 48) = 805306376"
    by (simp add: bswap32_def le_word32_def le_bytes32_def)
  show ?thesis
    using hdr_encode_compressed_growth_at_finish [of golden LittleEndian] 1
      buffering_encodes_small [of LittleEndian] small_decode
    unfolding 2 by simp
qed

end
